theory Spec2Isabelle
  imports Complex_Main
begin

section \<open>JavaScript strings\<close>

text \<open>
  A JavaScript string is modelled as a \<open>string\<close>: one \<open>char\<close> per code unit, so
  \<open>length\<close> is the \<open>.length\<close> of the source. Code units above 255 are not
  represented. \<open>\s\<close> of a regular expression and \<open>trim()\<close> use the same set of blanks;
  in the range of \<open>char\<close> these are TAB, LF, VT, FF, CR, SPACE and NBSP.
\<close>

definition is_space :: "char \<Rightarrow> bool" where
  "is_space c = (of_char c \<in> {9, 10, 11, 12, 13, 32, 160 :: nat})"

definition is_digit :: "char \<Rightarrow> bool" where
  "is_digit c = (c \<in> set ''0123456789'')"

definition is_lower :: "char \<Rightarrow> bool" where
  "is_lower c = (c \<in> set ''abcdefghijklmnopqrstuvwxyz'')"

definition is_upper :: "char \<Rightarrow> bool" where
  "is_upper c = (c \<in> set ''ABCDEFGHIJKLMNOPQRSTUVWXYZ'')"

definition is_hex :: "char \<Rightarrow> bool" where
  "is_hex c = (is_digit c \<or> c \<in> set ''abcdef'' \<or> c \<in> set ''ABCDEF'')"

definition lower_char :: "char \<Rightarrow> char" where
  "lower_char c =
     (case map_of (zip ''ABCDEFGHIJKLMNOPQRSTUVWXYZ'' ''abcdefghijklmnopqrstuvwxyz'') c of
        Some l \<Rightarrow> l
      | None \<Rightarrow> c)"

text \<open>\<open>s.toLowerCase()\<close>, on the letters A to Z.\<close>

definition toLowerCase :: "string \<Rightarrow> string" where
  "toLowerCase s = map lower_char s"

text \<open>\<open>s.startsWith(p)\<close> and \<open>s.endsWith(p)\<close>.\<close>

definition startsWith :: "string \<Rightarrow> string \<Rightarrow> bool" where
  "startsWith s p = (take (length p) s = p)"

definition endsWith :: "string \<Rightarrow> string \<Rightarrow> bool" where
  "endsWith s p = (length p \<le> length s \<and> drop (length s - length p) s = p)"

text \<open>\<open>s.trim()\<close>.\<close>

definition trim :: "string \<Rightarrow> string" where
  "trim s = rev (dropWhile is_space (rev (dropWhile is_space s)))"

text \<open>\<open>s.split(c)\<close> for a one-character separator: every occurrence separates, so
  \<open>''a..b''\<close> has an empty middle field and the empty string has one empty field.\<close>

fun split_on :: "char \<Rightarrow> string \<Rightarrow> string list" where
  "split_on c [] = [[]]"
| "split_on c (x # xs) =
     (if x = c then [] # split_on c xs
      else (case split_on c xs of [] \<Rightarrow> [[x]] | f # fs \<Rightarrow> (x # f) # fs))"

text \<open>\<open>xs.join(' ')\<close>.\<close>

fun join_space :: "string list \<Rightarrow> string" where
  "join_space [] = []"
| "join_space [s] = s"
| "join_space (s # t # ss) = s @ CHR '' '' # join_space (t # ss)"

text \<open>\<open>xs[i]\<close>: \<open>undefined\<close> out of range is \<open>None\<close>.\<close>

definition at_index :: "'a list \<Rightarrow> nat \<Rightarrow> 'a option" where
  "at_index xs i = (if i < length xs then Some (xs ! i) else None)"

text \<open>
  \<open>parseInt(s, 10)\<close>: leading blanks are skipped, an optional sign is read, then the
  longest run of decimal digits; \<open>None\<close> is \<open>NaN\<close> (no digit read).
\<close>

definition digit_val :: "char \<Rightarrow> nat" where
  "digit_val c = of_char c - 48"

definition dec_val :: "string \<Rightarrow> nat" where
  "dec_val ds = foldl (\<lambda>acc c. 10 * acc + digit_val c) 0 ds"

definition parseInt :: "string \<Rightarrow> int option" where
  "parseInt s =
     (let t = dropWhile is_space s;
          neg = (t \<noteq> [] \<and> hd t = CHR ''-'');
          u = (if t \<noteq> [] \<and> (hd t = CHR ''-'' \<or> hd t = CHR ''+'') then tl t else t);
          ds = takeWhile is_digit u
      in if ds = [] then None
         else Some (if neg then - int (dec_val ds) else int (dec_val ds)))"

section \<open>\<open>net.isIP\<close> of the Node.js runtime\<close>

text \<open>
  \<open>net.isIP(s)\<close> is 4 for a dotted-decimal IPv4 address (four fields 0 to 255, no
  leading zero), 6 for an IPv6 address in text form, and 0 otherwise. The runtime
  decides it with two anchored regular expressions; \<open>v4Seg\<close> is the alternation
  \<open>25[0-5]|2[0-4]\d|1\d\d|[1-9]\d|\d\<close> for one field.
\<close>

fun v4Seg :: "string \<Rightarrow> bool" where
  "v4Seg [a] = is_digit a"
| "v4Seg [a, b] = (is_digit a \<and> a \<noteq> CHR ''0'' \<and> is_digit b)"
| "v4Seg [a, b, c] =
     ((a = CHR ''2'' \<and> b = CHR ''5'' \<and> c \<in> set ''012345'')
      \<or> (a = CHR ''2'' \<and> b \<in> set ''01234'' \<and> is_digit c)
      \<or> (a = CHR ''1'' \<and> is_digit b \<and> is_digit c))"
| "v4Seg _ = False"

definition isIPv4 :: "string \<Rightarrow> bool" where
  "isIPv4 s = (let parts = split_on CHR ''.'' s in length parts = 4 \<and> list_all v4Seg parts)"

definition v6Seg :: "string \<Rightarrow> bool" where
  "v6Seg s = (1 \<le> length s \<and> length s \<le> 4 \<and> list_all is_hex s)"

text \<open>The position of the first \<open>::\<close>: the text before it and the text after it.\<close>

fun cut_double_colon :: "string \<Rightarrow> (string \<times> string) option" where
  "cut_double_colon (a # b # cs) =
     (if a = CHR '':'' \<and> b = CHR '':'' then Some ([], cs)
      else (case cut_double_colon (b # cs) of None \<Rightarrow> None
            | Some (l, r) \<Rightarrow> Some (a # l, r)))"
| "cut_double_colon _ = None"

text \<open>
  The number of 16-bit groups of a colon-separated run, \<open>None\<close> when a field is not
  well formed. Only the last field may be a dotted IPv4 address (when \<open>v4ok\<close>), which
  stands for two groups. The empty text has no group.
\<close>

definition v6_groups :: "bool \<Rightarrow> string \<Rightarrow> nat option" where
  "v6_groups v4ok s =
     (if s = [] then Some 0
      else let fs = split_on CHR '':'' s in
        if list_all v6Seg fs then Some (length fs)
        else if v4ok \<and> list_all v6Seg (butlast fs) \<and> isIPv4 (last fs)
        then Some (length fs + 1)
        else None)"

definition zone_char :: "char \<Rightarrow> bool" where
  "zone_char c = (is_digit c \<or> is_lower c \<or> is_upper c \<or> c \<in> set ''-.:'')"

definition isIPv6 :: "string \<Rightarrow> bool" where
  "isIPv6 s =
     (let addr = takeWhile (\<lambda>c. c \<noteq> CHR ''%'') s;
          rest = dropWhile (\<lambda>c. c \<noteq> CHR ''%'') s;
          zone_ok = (rest = [] \<or> (tl rest \<noteq> [] \<and> list_all zone_char (tl rest)))
      in zone_ok \<and>
         (case cut_double_colon addr of
            None \<Rightarrow> v6_groups True addr = Some 8
          | Some (l, r) \<Rightarrow>
              (case (v6_groups False l, v6_groups True r) of
                 (Some m, Some n) \<Rightarrow> m + n \<le> 7
               | _ \<Rightarrow> False)))"

definition net_isIP :: "string \<Rightarrow> nat" where
  "net_isIP s = (if isIPv4 s then 4 else if isIPv6 s then 6 else 0)"

section \<open>The URL guard\<close>

text \<open>\<open>isPrivateIp\<close>, the same function in both route files.\<close>

definition isPrivateIp :: "string \<Rightarrow> bool" where
  "isPrivateIp ip =
     (let v = net_isIP ip in
      if v = 4 then
        (let parts = map parseInt (split_on CHR ''.'' ip) in
         if at_index parts 0 = Some (Some 10) then True
         else if at_index parts 0 = Some (Some 127) then True
         else if at_index parts 0 = Some (Some 169) \<and> at_index parts 1 = Some (Some 254) then True
         else if at_index parts 0 = Some (Some 192) \<and> at_index parts 1 = Some (Some 168) then True
         else if at_index parts 0 = Some (Some 172)
                 \<and> (case at_index parts 1 of Some (Some p) \<Rightarrow> 16 \<le> p \<and> p \<le> 31 | _ \<Rightarrow> False)
         then True
         else False)
      else if v = 6 then
        (if ip = ''::1'' \<or> ip = ''0:0:0:0:0:0:0:1'' then True
         else if startsWith ip ''fc'' \<or> startsWith ip ''fd'' then True
         else False)
      else False)"

text \<open>
  What \<open>new URL(url)\<close> gives the routes: the \<open>protocol\<close> (with its colon) and the
  \<open>hostname\<close>. The constructor belongs to the runtime; the routes are modelled over
  any such function, \<open>None\<close> standing for the constructor throwing.
\<close>

record url_parts =
  protocol :: string
  hostname :: string

datatype json = ErrorBody string | TextBody string | SummaryBody string

datatype response = Response (status: nat) (payload: json)

text \<open>
  The checks both routes make between parsing the URL and fetching it; \<open>Some r\<close> is
  the early \<open>return res.status(400)\<close>, \<open>None\<close> lets the route go on to the fetch.
\<close>

definition url_guard :: "(string \<Rightarrow> url_parts option) \<Rightarrow> string \<Rightarrow> response option" where
  "url_guard URL_new url =
     (case URL_new url of
        None \<Rightarrow> Some (Response 400 (ErrorBody ''Invalid url''))
      | Some parsed \<Rightarrow>
          if protocol parsed \<noteq> ''http:'' \<and> protocol parsed \<noteq> ''https:''
          then Some (Response 400 (ErrorBody ''Invalid protocol''))
          else let host = toLowerCase (hostname parsed) in
            if host = ''localhost'' \<or> endsWith host ''.localhost''
            then Some (Response 400 (ErrorBody ''Disallowed host''))
            else if net_isIP host \<noteq> 0 \<and> isPrivateIp host
            then Some (Response 400 (ErrorBody ''Disallowed IP''))
            else None)"

section \<open>The text extractor\<close>

text \<open>
  \<open>text.replace(re, ' ')\<close> with a global regular expression: the text is scanned from
  the left; where the expression matches, the match becomes one blank and the scan goes
  on behind it, otherwise the character is kept. A matcher gives the text behind the
  match at the head of its argument. None of the four expressions of the source matches
  the empty text, so the text behind a match is always shorter.
\<close>

fun replace_all :: "(string \<Rightarrow> string option) \<Rightarrow> string \<Rightarrow> string" where
  "replace_all m [] = []"
| "replace_all m (c # cs) =
     (case m (c # cs) of
        None \<Rightarrow> c # replace_all m cs
      | Some r \<Rightarrow>
          if length r \<le> length cs then CHR '' '' # replace_all m r
          else c # replace_all m cs)"

text \<open>A prefix test that ignores the case of letters (the \<open>i\<close> flag).\<close>

definition ci_prefix :: "string \<Rightarrow> string \<Rightarrow> bool" where
  "ci_prefix p s = (length p \<le> length s \<and> toLowerCase (take (length p) s) = toLowerCase p)"

text \<open>The text behind the first occurrence of \<open>pat\<close>, ignoring case.\<close>

fun find_close :: "string \<Rightarrow> string \<Rightarrow> string option" where
  "find_close pat [] = None"
| "find_close pat (c # cs) =
     (if ci_prefix pat (c # cs) then Some (drop (length pat) (c # cs))
      else find_close pat cs)"

text \<open>
  \<open>/<script[\s\S]*?>[\s\S]*?<\/script>/gi\<close> and the same for \<open>style\<close>: the opening
  name, lazily up to the first \<open>>\<close>, lazily up to the first closing tag behind it.
  When no closing tag stands behind the first \<open>>\<close>, none stands behind a later one.
\<close>

definition match_block :: "string \<Rightarrow> string \<Rightarrow> string option" where
  "match_block tag s =
     (if ci_prefix (CHR ''<'' # tag) s then
        (case dropWhile (\<lambda>c. c \<noteq> CHR ''>'') (drop (Suc (length tag)) s) of
           [] \<Rightarrow> None
         | _ # r \<Rightarrow> find_close (''</'' @ tag @ ''>'') r)
      else None)"

text \<open>\<open>/<[^>]+>/g\<close>: a \<open><\<close>, at least one character that is not \<open>>\<close>, and a \<open>>\<close>.\<close>

definition match_tag :: "string \<Rightarrow> string option" where
  "match_tag s =
     (case s of
        [] \<Rightarrow> None
      | c # cs \<Rightarrow>
          if c = CHR ''<'' \<and> takeWhile (\<lambda>c. c \<noteq> CHR ''>'') cs \<noteq> []
          then (case dropWhile (\<lambda>c. c \<noteq> CHR ''>'') cs of [] \<Rightarrow> None | _ # r \<Rightarrow> Some r)
          else None)"

text \<open>\<open>/\s+/g\<close>: a longest run of blanks.\<close>

definition match_blanks :: "string \<Rightarrow> string option" where
  "match_blanks s =
     (case s of
        [] \<Rightarrow> None
      | c # cs \<Rightarrow> if is_space c then Some (dropWhile is_space cs) else None)"

text \<open>The four replacements and the \<open>trim()\<close> that both routes apply to the fetched text.\<close>

definition strip_html :: "string \<Rightarrow> string" where
  "strip_html text =
     (let t1 = replace_all (match_block ''script'') text;
          t2 = replace_all (match_block ''style'') t1;
          t3 = replace_all match_tag t2;
          t4 = replace_all match_blanks t3
      in trim t4)"

section \<open>The bounded fetcher\<close>

text \<open>
  The network is a parameter. \<open>fetch(url)\<close> either rejects (with \<open>AbortError\<close> when the
  8 second timer fired first) or resolves to a response; the timer is cleared as soon as
  it resolves. The body is either a reader, given by the results of its \<open>read()\<close> calls
  up to \<open>done\<close>, or has no \<open>getReader\<close> and is read with \<open>text()\<close>.
  \<open>utf8\<close> is \<open>Buffer.from(value).toString('utf8')\<close>.
\<close>

datatype js_error = JsError (err_name: string) (err_message: string)

definition AbortError :: js_error where
  "AbortError = JsError ''AbortError'' ''This operation was aborted''"

datatype read_event = Value "string option" | ReadFails js_error

datatype body_src = Reader "read_event list" | NoReader "js_error + string"

record remote_response =
  ok :: bool
  body :: body_src

datatype fetch_outcome = Rejects js_error | Resolves remote_response

record env =
  URL_new :: "string \<Rightarrow> url_parts option"
  fetch :: "string \<Rightarrow> fetch_outcome"
  utf8 :: "string \<Rightarrow> string"

datatype read_result = Exceeded | Thrown js_error | Complete string

text \<open>The \<open>while (true)\<close> loop over the reader, with the text accumulated so far.\<close>

fun read_stream :: "nat \<Rightarrow> (string \<Rightarrow> string) \<Rightarrow> read_event list \<Rightarrow> string \<Rightarrow> read_result" where
  "read_stream limit dec [] text = Complete text"
| "read_stream limit dec (ReadFails err # evs) text = Thrown err"
| "read_stream limit dec (Value None # evs) text = read_stream limit dec evs text"
| "read_stream limit dec (Value (Some v) # evs) text =
     (let text' = text @ dec v in
      if length text' > limit then Exceeded
      else read_stream limit dec evs text')"

definition read_body :: "nat \<Rightarrow> (string \<Rightarrow> string) \<Rightarrow> body_src \<Rightarrow> read_result" where
  "read_body limit dec b =
     (case b of
        Reader evs \<Rightarrow> read_stream limit dec evs []
      | NoReader (Inl err) \<Rightarrow> Thrown err
      | NoReader (Inr text) \<Rightarrow> Complete (if length text > limit then take limit text else text))"



section \<open>The article route\<close>

definition MAX_BYTES_article :: nat where
  "MAX_BYTES_article = 200 * 1024"

text \<open>The \<open>catch\<close> clause of both routes.\<close>

definition on_error :: "js_error \<Rightarrow> response" where
  "on_error err =
     (if err_name err = ''AbortError'' then Response 504 (ErrorBody ''Timeout fetching remote'')
      else Response 500 (ErrorBody ''Server error''))"

text \<open>
  The handler of the article route, from the \<open>url\<close> query parameter (\<open>None\<close>: absent)
  to the response and the list of the URLs fetched from the network on the way.
\<close>

definition article_route :: "env \<Rightarrow> string option \<Rightarrow> response \<times> string list" where
  "article_route e q =
     (case q of
        None \<Rightarrow> (Response 400 (ErrorBody ''Missing url''), [])
      | Some url \<Rightarrow>
          if url = [] then (Response 400 (ErrorBody ''Missing url''), [])
          else
            (case url_guard (URL_new e) url of
               Some r \<Rightarrow> (r, [])
             | None \<Rightarrow>
                 (case fetch e url of
                    Rejects err \<Rightarrow> (on_error err, [url])
                  | Resolves remoteRes \<Rightarrow>
                      if \<not> ok remoteRes
                      then (Response 502 (ErrorBody ''Failed to fetch remote''), [url])
                      else
                        (case read_body MAX_BYTES_article (utf8 e) (body remoteRes) of
                           Exceeded \<Rightarrow>
                             (Response 413 (ErrorBody ''Fetched content too large''), [url])
                         | Thrown err \<Rightarrow> (on_error err, [url])
                         | Complete text \<Rightarrow> (Response 200 (TextBody (strip_html text)), [url])))))"

section \<open>Sentences, tokens and term vectors\<close>

text \<open>
  \<open>split(/(?<=[.!?])\s+/)\<close>: the text is cut at every run of blanks that stands right
  behind a full stop, an exclamation mark or a question mark; the run is dropped. \<open>acc\<close>
  is the piece read so far, reversed, so its head is the character before the position.
\<close>

function split_after_punct :: "string \<Rightarrow> string \<Rightarrow> string list" where
  "split_after_punct acc [] = [rev acc]"
| "split_after_punct acc (c # cs) =
     (if is_space c \<and> acc \<noteq> [] \<and> hd acc \<in> set ''.!?''
      then rev acc # split_after_punct [] (dropWhile is_space cs)
      else split_after_punct (c # acc) cs)"
  by pat_completeness auto
termination
  by (relation "measure (\<lambda>(acc, s). length s)")
     (auto simp: le_imp_less_Suc length_dropWhile_le)

definition splitSentences :: "string \<Rightarrow> string list" where
  "splitSentences text =
     filter (\<lambda>s. s \<noteq> [])
       (map trim
          (split_after_punct []
             (map (\<lambda>c. if c = CHR 0x0A then CHR '' '' else c) text)))"

text \<open>\<open>split(/\s+/)\<close>: the fields between the runs of blanks, empty fields at the ends
  included.\<close>

function split_blanks :: "string \<Rightarrow> string list" where
  "split_blanks s =
     (case dropWhile (\<lambda>c. \<not> is_space c) s of
        [] \<Rightarrow> [s]
      | _ # r \<Rightarrow> takeWhile (\<lambda>c. \<not> is_space c) s # split_blanks (dropWhile is_space r))"
  by pat_completeness auto
termination
proof (relation "measure length")
  fix s :: string and x r
  assume "dropWhile (\<lambda>c. \<not> is_space c) s = x # r"
  then have "length s \<ge> Suc (length r)"
    by (metis length_Cons length_dropWhile_le)
  moreover have "length (dropWhile is_space r) \<le> length r"
    by (rule length_dropWhile_le)
  ultimately show "(dropWhile is_space r, s) \<in> measure length"
    by simp
qed simp

definition tokenize :: "string \<Rightarrow> string list" where
  "tokenize s =
     filter (\<lambda>w. length w > 2)
       (split_blanks
          (map (\<lambda>c. if is_lower c \<or> is_digit c \<or> is_space c then c else CHR '' '')
             (toLowerCase s)))"

text \<open>
  A term vector is the \<open>freq\<close> object of the source: term id to count, here as an
  association list with one entry per id. The vocabulary maps a term to its id.
\<close>

type_synonym freq = "(nat \<times> nat) list"

definition bump :: "freq \<Rightarrow> nat \<Rightarrow> freq" where
  "bump freq k =
     (case map_of freq k of
        None \<Rightarrow> freq @ [(k, 1)]
      | Some c \<Rightarrow> map (\<lambda>(k', v). if k' = k then (k', c + 1) else (k', v)) freq)"

definition add_token ::
  "(string \<times> nat) list \<times> nat \<times> freq \<Rightarrow> string \<Rightarrow> (string \<times> nat) list \<times> nat \<times> freq" where
  "add_token st t =
     (case st of (vocab, idx, freq) \<Rightarrow>
        (case map_of vocab t of
           None \<Rightarrow> (vocab @ [(t, idx)], idx + 1, bump freq idx)
         | Some k \<Rightarrow> (vocab, idx, bump freq k)))"

definition add_sentence ::
  "(string \<times> nat) list \<times> nat \<times> freq list \<Rightarrow> string \<Rightarrow> (string \<times> nat) list \<times> nat \<times> freq list" where
  "add_sentence st s =
     (case st of (vocab, idx, vectors) \<Rightarrow>
        (case foldl add_token (vocab, idx, []) (tokenize s) of
           (vocab', idx', freq) \<Rightarrow> (vocab', idx', vectors @ [freq])))"

definition buildSentenceVectors :: "string list \<Rightarrow> freq list \<times> nat" where
  "buildSentenceVectors sentences =
     (case foldl add_sentence ([], 0, []) sentences of
        (vocab, idx, vectors) \<Rightarrow> (vectors, length vocab))"

section \<open>The similarity ranker\<close>

text \<open>
  Numbers are the reals: the rounding of the doubles of the source is not modelled.
  \<open>cosineSim\<close> runs over the entries of \<open>a\<close> (the \<open>for (const k in a)\<close> loop, with
  \<open>dot\<close> and \<open>na\<close> as the loop state and \<open>cosine_step\<close> as its body), then over those
  of \<open>b\<close>; \<open>if (b[k])\<close> holds for a count that is present and not zero.
\<close>

definition cosine_step :: "freq \<Rightarrow> real \<times> real \<Rightarrow> nat \<times> nat \<Rightarrow> real \<times> real" where
  "cosine_step b st entry =
     (case st of (dot, na) \<Rightarrow>
        (case entry of (k, av) \<Rightarrow>
           ((case map_of b k of
               None \<Rightarrow> dot
             | Some bv \<Rightarrow> if bv = 0 then dot else dot + real av * real bv),
            na + real av * real av)))"

definition cosineSim :: "freq \<Rightarrow> freq \<Rightarrow> real" where
  "cosineSim a b =
     (case foldl (cosine_step b) (0, 0) a of (dot, na) \<Rightarrow>
        let nb = foldl (\<lambda>nb entry. nb + real (snd entry) * real (snd entry)) 0 b
        in if na = 0 \<or> nb = 0 then 0
           else dot / (sqrt na * sqrt nb))"

record rank_opts =
  damping :: "real option"
  iters :: "nat option"

text \<open>The similarity matrix: \<open>n\<close> rows of \<open>n\<close> zeros, then the two nested loops that
  write \<open>sim[i][j]\<close> and \<open>sim[j][i]\<close> for \<open>i < j\<close>.\<close>

definition sim_matrix :: "freq list \<Rightarrow> nat \<Rightarrow> real list list" where
  "sim_matrix vectors n =
     fold (\<lambda>i sim.
             fold (\<lambda>j sim.
                     let s = cosineSim (vectors ! i) (vectors ! j);
                         sim1 = sim[i := (sim ! i)[j := s]]
                     in sim1[j := (sim1 ! j)[i := s]])
               [i + 1..<n] sim)
       [0..<n] (replicate n (replicate n 0))"

text \<open>One pass of the \<open>for (let it ...)\<close> loop: \<open>next\<close> is filled from \<open>scores\<close>, then
  copied back into \<open>scores\<close> entry by entry.\<close>

definition rank_step ::
  "real \<Rightarrow> nat \<Rightarrow> real list list \<Rightarrow> real list \<Rightarrow> real list \<Rightarrow> real list" where
  "rank_step d n sim rowSum scores =
     (let next =
            fold (\<lambda>i next.
                    if rowSum ! i = 0 then next
                    else fold (\<lambda>j next.
                                 if sim ! j ! i \<le> 0 then next
                                 else next[i := next ! i
                                               + d * (sim ! j ! i / rowSum ! j) * scores ! j])
                           [0..<n] next)
              [0..<n] (replicate n ((1 - d) / real n))
      in fold (\<lambda>k scores. scores[k := next ! k]) [0..<n] scores)"

text \<open>
  \<open>Array.prototype.sort\<close> is stable; for a comparator that is a consistent order the
  result is the stable sorted arrangement, here computed by insertion.
\<close>

fun js_insert :: "('a \<Rightarrow> 'a \<Rightarrow> real) \<Rightarrow> 'a \<Rightarrow> 'a list \<Rightarrow> 'a list" where
  "js_insert cmp x [] = [x]"
| "js_insert cmp x (y # ys) =
     (if cmp x y \<le> 0 then x # y # ys else y # js_insert cmp x ys)"

definition js_sort :: "('a \<Rightarrow> 'a \<Rightarrow> real) \<Rightarrow> 'a list \<Rightarrow> 'a list" where
  "js_sort cmp xs = foldr (js_insert cmp) xs []"

text \<open>
  The elements of the array \<open>textRank\<close> returns: an object \<open>{idx, score}\<close> in the general
  case, the bare number of \<open>return [0]\<close> for a single sentence.
\<close>

record ranked_sentence =
  idx :: nat
  score :: real

datatype rank_item = Num nat | Obj ranked_sentence

text \<open>Lines 117 to 139 of \<open>textRank\<close>: the \<open>scores\<close> array when the loop is left.\<close>

definition rank_scores :: "freq list \<Rightarrow> nat \<Rightarrow> real \<Rightarrow> nat \<Rightarrow> real list" where
  "rank_scores vectors n d its =
     (let sim = sim_matrix vectors n;
          rowSum = map (\<lambda>row. foldl (+) 0 row) sim
      in ((rank_step d n sim rowSum) ^^ its) (replicate n (1 / real n)))"

definition opt_damping :: "rank_opts \<Rightarrow> real" where
  "opt_damping opts = (case damping opts of None \<Rightarrow> 0.85 | Some x \<Rightarrow> if x = 0 then 0.85 else x)"

definition opt_iters :: "rank_opts \<Rightarrow> nat" where
  "opt_iters opts = (case iters opts of None \<Rightarrow> 20 | Some k \<Rightarrow> if k = 0 then 20 else k)"

definition textRank :: "string list \<Rightarrow> freq list \<Rightarrow> rank_opts \<Rightarrow> rank_item list" where
  "textRank sentences vectors opts =
     (let d = opt_damping opts;
          its = opt_iters opts;
          n = length sentences
      in if n = 0 then []
         else if n = 1 then [Num 0]
         else
           let scores = rank_scores vectors n d its
           in map Obj
                (js_sort (\<lambda>a b. score b - score a)
                   (map (\<lambda>(s, i). \<lparr>idx = i, score = s\<rparr>) (zip scores [0..<n]))))"

section \<open>The summarize route\<close>

definition MAX_BYTES_summarize :: nat where
  "MAX_BYTES_summarize = 300 * 1024"

text \<open>\<open>fetchTextFromUrl\<close>: the text, or the error it throws; with the URLs fetched.\<close>

definition fetchTextFromUrl :: "env \<Rightarrow> string \<Rightarrow> (js_error + string) \<times> string list" where
  "fetchTextFromUrl e url =
     (case fetch e url of
        Rejects err \<Rightarrow> (Inl err, [url])
      | Resolves res \<Rightarrow>
          if \<not> ok res then (Inl (JsError ''Error'' ''Remote fetch failed''), [url])
          else
            (case read_body MAX_BYTES_summarize (utf8 e) (body res) of
               Exceeded \<Rightarrow> (Inl (JsError ''Error'' ''Content too large''), [url])
             | Thrown err \<Rightarrow> (Inl err, [url])
             | Complete text \<Rightarrow> (Inr (strip_html text), [url])))"

text \<open>\<open>t.idx\<close> of an element of the ranking: \<open>undefined\<close> (\<open>None\<close>) on a bare number.\<close>

definition item_idx :: "rank_item \<Rightarrow> nat option" where
  "item_idx t = (case t of Num k \<Rightarrow> None | Obj r \<Rightarrow> Some (idx r))"

text \<open>The comparator \<open>(a, b) => a.idx - b.idx\<close>; a \<open>NaN\<close> result counts as 0.\<close>

definition cmp_idx :: "rank_item \<Rightarrow> rank_item \<Rightarrow> real" where
  "cmp_idx a b =
     (case (item_idx a, item_idx b) of
        (Some x, Some y) \<Rightarrow> real x - real y
      | _ \<Rightarrow> 0)"

definition topCount :: "nat \<Rightarrow> nat" where
  "topCount n = min 3 (max 1 (nat \<lfloor>real n * 0.2\<rfloor>))"

text \<open>Lines 175 to 180: the ranking and the selection, for the sentences that reach it.
  \<open>join\<close> writes an \<open>undefined\<close> element as the empty text.\<close>

definition rank_and_select :: "string list \<Rightarrow> string" where
  "rank_and_select sentences =
     (let vectors = fst (buildSentenceVectors sentences);
          ranked = textRank sentences vectors \<lparr>damping = Some 0.85, iters = Some 30\<rparr>;
          top = map (\<lambda>t. case item_idx t of None \<Rightarrow> None | Some i \<Rightarrow> at_index sentences i)
                  (js_sort cmp_idx (take (topCount (length sentences)) ranked))
      in join_space (map (\<lambda>s. case s of None \<Rightarrow> [] | Some x \<Rightarrow> x) top))"

text \<open>Lines 173 to 180: the summary of a list of sentences.\<close>

definition select_summary :: "string list \<Rightarrow> string" where
  "select_summary sentences =
     (if length sentences \<le> 3 then join_space sentences
      else rank_and_select sentences)"

text \<open>Lines 169 to 180: from the text to the response.\<close>

definition summarize_text :: "string \<Rightarrow> response" where
  "summarize_text text =
     (if text = [] \<or> length (trim text) = 0
      then Response 422 (ErrorBody ''No text to summarize'')
      else let sentences = take 60 (splitSentences text) in
        if length sentences = 0 then Response 422 (ErrorBody ''No sentences'')
        else Response 200 (SummaryBody (select_summary sentences)))"

text \<open>
  The handler of the summarize route, from the \<open>url\<close> and \<open>text\<close> query parameters to the
  response and the list of the URLs fetched from the network on the way.
\<close>

definition from_raw_text :: "string option \<Rightarrow> response \<times> string list" where
  "from_raw_text rawText =
     (case rawText of
        None \<Rightarrow> (Response 400 (ErrorBody ''Missing url or text''), [])
      | Some t \<Rightarrow>
          if t = [] then (Response 400 (ErrorBody ''Missing url or text''), [])
          else (summarize_text (take MAX_BYTES_summarize t), []))"

definition summarize_route :: "env \<Rightarrow> string option \<Rightarrow> string option \<Rightarrow> response \<times> string list" where
  "summarize_route e q rawText =
     (case q of
        None \<Rightarrow> from_raw_text rawText
      | Some url \<Rightarrow>
          if url = [] then from_raw_text rawText
          else
            (case url_guard (URL_new e) url of
               Some r \<Rightarrow> (r, [])
             | None \<Rightarrow>
                 (case fetchTextFromUrl e url of
                    (Inl err, net) \<Rightarrow> (on_error err, net)
                  | (Inr text, net) \<Rightarrow> (summarize_text text, net))))"

section \<open>An example environment\<close>

text \<open>
  Some values of \<open>new URL(url)\<close> as the runtime computes them, for evaluating the routes
  on concrete requests. The URL standard writes an IPv6 host between square brackets in
  \<open>hostname\<close>, and an IPv4 host in dotted-decimal form.
\<close>

definition example_URL :: "string \<Rightarrow> url_parts option" where
  "example_URL = map_of
     [(''http://example.com/a'', \<lparr>protocol = ''http:'', hostname = ''example.com''\<rparr>),
      (''http://8.8.8.8/'', \<lparr>protocol = ''http:'', hostname = ''8.8.8.8''\<rparr>),
      (''http://127.0.0.1/'', \<lparr>protocol = ''http:'', hostname = ''127.0.0.1''\<rparr>),
      (''http://localhost/x'', \<lparr>protocol = ''http:'', hostname = ''localhost''\<rparr>),
      (''ftp://example.com/'', \<lparr>protocol = ''ftp:'', hostname = ''example.com''\<rparr>),
      (''http://[::1]/'', \<lparr>protocol = ''http:'', hostname = ''[::1]''\<rparr>),
      (''http://[fc00::1]/'', \<lparr>protocol = ''http:'', hostname = ''[fc00::1]''\<rparr>)]"

definition example_env :: "fetch_outcome \<Rightarrow> env" where
  "example_env out = \<lparr>URL_new = example_URL, fetch = (\<lambda>url. out), utf8 = (\<lambda>bytes. bytes)\<rparr>"

section \<open>The recurrence as the specification words it\<close>

text \<open>
  One update: every score \<open>i\<close> becomes \<open>(1-d)/N + d * \<Sum>\<^sub>j (sim[j][i] / rowSum[j]) * score[j]\<close>,
  over the \<open>j\<close> whose row sum is not zero and whose similarity to \<open>i\<close> is positive; all
  new scores are computed from the old list. \<open>spec_scores\<close> starts every score at \<open>1/N\<close>
  and updates \<open>its\<close> times, with the row sums computed once.
\<close>

definition spec_update :: "real \<Rightarrow> nat \<Rightarrow> real list list \<Rightarrow> real list \<Rightarrow> real list \<Rightarrow> real list" where
  "spec_update d n sim rowSum scores =
     map (\<lambda>i. (1 - d) / real n
             + d * sum_list (map (\<lambda>j. sim ! j ! i / rowSum ! j * scores ! j)
                              (filter (\<lambda>j. rowSum ! j \<noteq> 0 \<and> 0 < sim ! j ! i) [0..<n])))
       [0..<n]"

definition spec_scores :: "freq list \<Rightarrow> nat \<Rightarrow> real \<Rightarrow> nat \<Rightarrow> real list" where
  "spec_scores vectors n d its =
     (let sim = sim_matrix vectors n;
          rowSum = map sum_list sim
      in ((spec_update d n sim rowSum) ^^ its) (replicate n (1 / real n)))"

section \<open>Notions used in the statements\<close>

text \<open>
  The dotted-decimal text of an IPv4 address with the fields \<open>a\<close>, \<open>b\<close>, \<open>c\<close>, \<open>d\<close>, each
  written in decimal without leading zeros: the \<open>hostname\<close> that the URL parser gives for
  an IPv4 host. \<open>octet_ok\<close> collects what \<open>net.isIP\<close> and \<open>parseInt\<close> make of one field.
\<close>

definition digit_char :: "nat \<Rightarrow> char" where
  "digit_char d = ''0123456789'' ! d"

function decimal :: "nat \<Rightarrow> string" where
  "decimal n = (if n < 10 then [digit_char n] else decimal (n div 10) @ [digit_char (n mod 10)])"
  by pat_completeness auto
termination
  by (relation "measure (\<lambda>n. n)") auto

declare decimal.simps [simp del]

definition dotted :: "nat \<Rightarrow> nat \<Rightarrow> nat \<Rightarrow> nat \<Rightarrow> string" where
  "dotted a b c d = decimal a @ ''.'' @ decimal b @ ''.'' @ decimal c @ ''.'' @ decimal d"

definition octet_ok :: "nat \<Rightarrow> bool" where
  "octet_ok n = (v4Seg (decimal n) \<and> parseInt (decimal n) = Some (int n) \<and> list_all is_digit (decimal n) \<and> decimal n \<noteq> [])"

text \<open>A similarity matrix of the right shape: \<open>n\<close> rows of \<open>n\<close> entries, symmetric, no
  negative entry.\<close>

definition sim_ok :: "nat \<Rightarrow> real list list \<Rightarrow> bool" where
  "sim_ok n M = (length M = n \<and> list_all (\<lambda>row. length row = n) M
     \<and> list_all (\<lambda>i. list_all (\<lambda>j. M ! i ! j = M ! j ! i \<and> 0 \<le> M ! i ! j) [0..<n]) [0..<n])"

text \<open>The summand that the inner loop of \<open>rank_step\<close> adds for the pair \<open>(i, j)\<close>.\<close>

definition rank_term :: "real \<Rightarrow> real list list \<Rightarrow> real list \<Rightarrow> real list \<Rightarrow> nat \<Rightarrow> nat \<Rightarrow> real" where
  "rank_term d sim rowSum scores i j =
     (if sim ! j ! i \<le> 0 then 0 else d * (sim ! j ! i / rowSum ! j) * scores ! j)"

text \<open>The objects \<open>{idx, score}\<close> of a score list, in descending order of score, equal
  scores in ascending order of index.\<close>

definition ranking :: "real list \<Rightarrow> ranked_sentence list" where
  "ranking scores = sort_key (\<lambda>r. - score r) (map (\<lambda>i. \<lparr>idx = i, score = scores ! i\<rparr>) [0..<length scores])"

text \<open>The indices of the first \<open>k\<close> objects of the ranking, in ascending order.\<close>

definition top_indices :: "nat \<Rightarrow> real list \<Rightarrow> nat list" where
  "top_indices k S = map idx (sort_key idx (take k (ranking S)))"


section \<open>Evaluation rules\<close>

lemmas char_class_defs =
  is_space_def is_digit_def is_lower_def is_upper_def is_hex_def lower_char_def
  toLowerCase_def startsWith_def endsWith_def

lemmas ip_defs =
  net_isIP_def isIPv4_def isIPv6_def v6_groups_def v6Seg_def isPrivateIp_def at_index_def
  parseInt_def dec_val_def digit_val_def

lemmas guard_defs = url_guard_def example_env_def example_URL_def

lemma split_on_nonempty: "split_on c s \<noteq> []"
  by (induction s) (auto split: list.splits)

section \<open>The guard and the routes\<close>

text \<open>The classification itself knows the IPv6 loopback and the \<open>fc\<close>/\<open>fd\<close> prefixes,
  when it is given the address without brackets, and lets a public address pass.\<close>

lemma isPrivateIp_examples:
  "isPrivateIp ''::1''" "isPrivateIp ''0:0:0:0:0:0:0:1''" "isPrivateIp ''fc00::1''"
  "isPrivateIp ''fd12:3456::1''" "isPrivateIp ''127.0.0.1''" "isPrivateIp ''10.1.2.3''"
  "isPrivateIp ''169.254.0.9''" "isPrivateIp ''192.168.1.1''" "isPrivateIp ''172.16.0.1''"
  "isPrivateIp ''172.31.255.255''" "\<not> isPrivateIp ''172.32.0.1''" "\<not> isPrivateIp ''8.8.8.8''"
  by (simp_all add: char_class_defs ip_defs)

lemma guard_examples:
  "url_guard example_URL ''http://8.8.8.8/'' = None"
  "url_guard example_URL ''http://127.0.0.1/'' = Some (Response 400 (ErrorBody ''Disallowed IP''))"
  "url_guard example_URL ''http://localhost/x'' = Some (Response 400 (ErrorBody ''Disallowed host''))"
  "url_guard example_URL ''ftp://example.com/'' = Some (Response 400 (ErrorBody ''Invalid protocol''))"
  "url_guard example_URL ''no url'' = Some (Response 400 (ErrorBody ''Invalid url''))"
  "url_guard example_URL ''http://example.com/a'' = None"
  by (simp_all add: guard_defs char_class_defs ip_defs)

subsection \<open>IPv4 literals\<close>

text \<open>Every field below 256 is written as a text that \<open>net.isIP\<close> accepts and
  \<open>parseInt\<close> reads back.\<close>

lemma octets_ok: "list_all octet_ok [0..<256]"
  by code_simp

lemma octet_ok_below_256: "n < 256 \<Longrightarrow> octet_ok n"
  using octets_ok by (simp add: list_all_iff)

lemma split_on_field: "c \<notin> set x \<Longrightarrow> split_on c (x @ c # rest) = x # split_on c rest"
  by (induction x) (auto split: list.splits)

lemma split_on_single: "c \<notin> set x \<Longrightarrow> split_on c x = [x]"
  by (induction x) (auto split: list.splits)

lemma digits_no_dot:
  assumes "list_all is_digit s"
  shows "CHR ''.'' \<notin> set s"
proof
  assume "CHR ''.'' \<in> set s"
  with assms have "is_digit CHR ''.''" unfolding list_all_iff by blast
  then show False by (simp add: is_digit_def)
qed

lemma decimal_octet:
  assumes "n < 256"
  shows "v4Seg (decimal n)" "parseInt (decimal n) = Some (int n)" "list_all is_digit (decimal n)"
    "CHR ''.'' \<notin> set (decimal n)"
proof -
  from octet_ok_below_256 [OF assms] show "v4Seg (decimal n)" "parseInt (decimal n) = Some (int n)"
    and d: "list_all is_digit (decimal n)"
    by (simp_all add: octet_ok_def)
  from d show "CHR ''.'' \<notin> set (decimal n)" by (rule digits_no_dot)
qed

lemma split_dotted:
  assumes "a < 256" "b < 256" "c < 256" "d < 256"
  shows "split_on CHR ''.'' (dotted a b c d) = [decimal a, decimal b, decimal c, decimal d]"
  by (simp add: dotted_def split_on_field split_on_single
      decimal_octet(4) [OF assms(1)] decimal_octet(4) [OF assms(2)] decimal_octet(4) [OF assms(3)]
      decimal_octet(4) [OF assms(4)])

lemma isIP_dotted:
  assumes "a < 256" "b < 256" "c < 256" "d < 256"
  shows "net_isIP (dotted a b c d) = 4"
  by (simp add: net_isIP_def isIPv4_def split_dotted [OF assms]
      decimal_octet(1) [OF assms(1)] decimal_octet(1) [OF assms(2)] decimal_octet(1) [OF assms(3)]
      decimal_octet(1) [OF assms(4)])

lemma isPrivateIp_dotted:
  assumes "a < 256" "b < 256" "c < 256" "d < 256"
  shows "isPrivateIp (dotted a b c d)
     = (a = 10 \<or> a = 127 \<or> (a = 169 \<and> b = 254) \<or> (a = 192 \<and> b = 168)
        \<or> (a = 172 \<and> 16 \<le> b \<and> b \<le> 31))"
proof -
  have p: "map parseInt (split_on CHR ''.'' (dotted a b c d))
      = [Some (int a), Some (int b), Some (int c), Some (int d)]"
    by (simp add: split_dotted [OF assms]
      decimal_octet(2) [OF assms(1)] decimal_octet(2) [OF assms(2)] decimal_octet(2) [OF assms(3)]
      decimal_octet(2) [OF assms(4)])
  have "isPrivateIp (dotted a b c d)
     = (int a = 10 \<or> int a = 127 \<or> (int a = 169 \<and> int b = 254) \<or> (int a = 192 \<and> int b = 168)
        \<or> (int a = 172 \<and> 16 \<le> int b \<and> int b \<le> 31))"
    unfolding isPrivateIp_def isIP_dotted [OF assms] Let_def p
    by (simp add: at_index_def)
  then show ?thesis by simp
qed

lemma lower_char_digits: "list_all (\<lambda>c. lower_char c = c) ''0123456789.''"
  by (simp add: lower_char_def)

lemma lower_char_digit_dot:
  assumes "is_digit c \<or> c = CHR ''.''"
  shows "lower_char c = c"
proof -
  from assms have "c \<in> set ''0123456789.''" by (simp add: is_digit_def)
  with lower_char_digits show ?thesis unfolding list_all_iff by blast
qed

lemma dotted_chars:
  assumes "a < 256" "b < 256" "c < 256" "d < 256"
  shows "list_all (\<lambda>x. is_digit x \<or> x = CHR ''.'') (dotted a b c d)"
proof -
  have w: "list_all (\<lambda>x. is_digit x \<or> x = CHR ''.'') s" if "list_all is_digit s" for s
    using that by (simp add: list_all_iff)
  show ?thesis
    by (simp add: dotted_def w [OF decimal_octet(3) [OF assms(1)]] w [OF decimal_octet(3) [OF assms(2)]]
        w [OF decimal_octet(3) [OF assms(3)]] w [OF decimal_octet(3) [OF assms(4)]])
qed

lemma toLowerCase_dotted:
  assumes "a < 256" "b < 256" "c < 256" "d < 256"
  shows "toLowerCase (dotted a b c d) = dotted a b c d"
  unfolding toLowerCase_def
  using dotted_chars [OF assms] by (intro map_idI) (simp add: lower_char_digit_dot list_all_iff)

lemma dotted_not_localhost:
  assumes "a < 256" "b < 256" "c < 256" "d < 256"
  shows "dotted a b c d \<noteq> ''localhost''" "\<not> endsWith (dotted a b c d) ''.localhost''"
proof -
  have nl: "CHR ''l'' \<notin> set (dotted a b c d)"
  proof
    assume "CHR ''l'' \<in> set (dotted a b c d)"
    with dotted_chars [OF assms] have "is_digit CHR ''l'' \<or> CHR ''l'' = CHR ''.''"
      unfolding list_all_iff by blast
    then show False by (simp add: is_digit_def)
  qed
  show "dotted a b c d \<noteq> ''localhost''"
  proof
    assume "dotted a b c d = ''localhost''"
    then have "CHR ''l'' \<in> set (dotted a b c d)" by simp
    with nl show False by simp
  qed
  show "\<not> endsWith (dotted a b c d) ''.localhost''"
  proof
    assume "endsWith (dotted a b c d) ''.localhost''"
    then have "drop (length (dotted a b c d) - length ''.localhost'') (dotted a b c d) = ''.localhost''"
      by (simp add: endsWith_def)
    then have "CHR ''l'' \<in> set (drop (length (dotted a b c d) - length ''.localhost'') (dotted a b c d))"
      by simp
    then have "CHR ''l'' \<in> set (dotted a b c d)" by (rule in_set_dropD)
    with nl show False by simp
  qed
qed

text \<open>
  For an http or https URL whose host is an IPv4 literal, the guard answers
  \<open>Disallowed IP\<close> exactly on 10.0.0.0/8, 127.0.0.0/8, 169.254.0.0/16, 192.168.0.0/16 and
  172.16.0.0 to 172.31.255.255, and lets every other address pass.
\<close>

lemma guard_on_ipv4_literal:
  assumes "a < 256" "b < 256" "c < 256" "d < 256"
    and "parse url = Some parsed"
    and "protocol parsed = ''http:'' \<or> protocol parsed = ''https:''"
    and "hostname parsed = dotted a b c d"
  shows "url_guard parse url
     = (if a = 10 \<or> a = 127 \<or> (a = 169 \<and> b = 254) \<or> (a = 192 \<and> b = 168)
           \<or> (a = 172 \<and> 16 \<le> b \<and> b \<le> 31)
        then Some (Response 400 (ErrorBody ''Disallowed IP''))
        else None)"
proof -
  note o = assms(1-4)
  have "url_guard parse url
      = (if isPrivateIp (dotted a b c d) then Some (Response 400 (ErrorBody ''Disallowed IP'')) else None)"
    using assms(6) dotted_not_localhost [OF o]
    by (simp add: url_guard_def assms(5) assms(7) toLowerCase_dotted [OF o] isIP_dotted [OF o])
  then show ?thesis by (simp only: isPrivateIp_dotted [OF o])
qed

text \<open>The dotted-decimal text, on examples.\<close>

lemma dotted_example: "dotted 8 8 8 8 = ''8.8.8.8''" "dotted 172 16 0 1 = ''172.16.0.1''"
  by code_simp+

text \<open>A hostname that starts with a square bracket, as that of every IPv6 host does, is
  no IP address for \<open>net.isIP\<close>, so the guard never classifies it.\<close>

lemma split_on_head: "x \<noteq> c \<Longrightarrow> \<exists>f fs. split_on c (x # xs) = (x # f) # fs"
  by (cases "split_on c xs") (simp_all add: split_on_nonempty)

lemma v4Seg_bracket: "\<not> v4Seg (CHR ''['' # f)"
proof (cases f)
  case Nil
  then show ?thesis by (simp add: is_digit_def)
next
  case (Cons b g)
  note f = this
  show ?thesis
  proof (cases g)
    case Nil
    then show ?thesis using f by (simp add: is_digit_def)
  next
    case (Cons c h)
    then show ?thesis using f by (cases h) simp_all
  qed
qed

lemma isIPv4_bracket: "\<not> isIPv4 (CHR ''['' # rest)"
proof -
  obtain f fs where "split_on CHR ''.'' (CHR ''['' # rest) = (CHR ''['' # f) # fs"
    using split_on_head [of "CHR ''[''" "CHR ''.''" rest] by auto
  then show ?thesis by (simp add: isIPv4_def v4Seg_bracket)
qed

lemma v6Seg_bracket: "\<not> v6Seg (CHR ''['' # f)"
  by (simp add: v6Seg_def is_hex_def is_digit_def)

lemma v6_groups_bracket: "v6_groups v4ok (CHR ''['' # t) = None"
proof -
  obtain f fs where s: "split_on CHR '':'' (CHR ''['' # t) = (CHR ''['' # f) # fs"
    using split_on_head [of "CHR ''[''" "CHR '':''" t] by auto
  show ?thesis
  proof (cases fs)
    case Nil
    then show ?thesis using s by (simp add: v6_groups_def v6Seg_bracket isIPv4_bracket)
  next
    case (Cons g gs)
    then show ?thesis using s by (simp add: v6_groups_def v6Seg_bracket)
  qed
qed

lemma cut_double_colon_bracket:
  "cut_double_colon (CHR ''['' # t) = Some (l, r) \<Longrightarrow> \<exists>l'. l = CHR ''['' # l'"
  by (cases t) (auto split: option.splits)

lemma isIPv6_bracket: "\<not> isIPv6 (CHR ''['' # rest)"
proof -
  let ?addr = "takeWhile (\<lambda>c. c \<noteq> CHR ''%'') (CHR ''['' # rest)"
  have a: "?addr = CHR ''['' # takeWhile (\<lambda>c. c \<noteq> CHR ''%'') rest" by simp
  have "\<not> (case cut_double_colon ?addr of
            None \<Rightarrow> v6_groups True ?addr = Some 8
          | Some (l, r) \<Rightarrow>
              (case (v6_groups False l, v6_groups True r) of
                 (Some m, Some n) \<Rightarrow> m + n \<le> 7
               | _ \<Rightarrow> False))"
  proof (cases "cut_double_colon ?addr")
    case None
    then show ?thesis unfolding a by (simp add: v6_groups_bracket)
  next
    case (Some lr)
    obtain l r where lr: "lr = (l, r)" by (cases lr)
    with Some cut_double_colon_bracket [of "takeWhile (\<lambda>c. c \<noteq> CHR ''%'') rest" l r]
    obtain l' where "l = CHR ''['' # l'" unfolding a by auto
    then show ?thesis using Some lr by (simp add: v6_groups_bracket)
  qed
  then show ?thesis by (simp add: isIPv6_def Let_def del: takeWhile.simps)
qed

lemma net_isIP_bracket: "net_isIP (CHR ''['' # rest) = 0"
  by (simp add: net_isIP_def isIPv4_bracket isIPv6_bracket)

lemma guard_never_classifies_bracketed_host:
  assumes "parse url = Some parsed" and "hostname parsed = CHR ''['' # rest"
  shows "url_guard parse url \<noteq> Some (Response 400 (ErrorBody ''Disallowed IP''))"
proof -
  have "toLowerCase (hostname parsed) = CHR ''['' # toLowerCase rest"
    using assms(2) by (simp add: toLowerCase_def lower_char_def)
  then show ?thesis
    using assms(1) by (simp add: url_guard_def Let_def net_isIP_bracket)
qed


subsection \<open>Properties of the guard and the routes\<close>

text \<open>
  C1 (the IPv6 part fails on the code). The guard is to reject the IPv6 literals \<open>::1\<close>
  and those with prefix \<open>fc\<close> or \<open>fd\<close>. The routes hand \<open>isPrivateIp\<close> the \<open>hostname\<close> of
  the parsed URL, which carries an IPv6 address in square brackets; \<open>net.isIP\<close> is 0 on
  the bracketed text, so the IPv6 branch of \<open>isPrivateIp\<close> is never reached: the guard
  lets \<open>http://[::1]/\<close> and \<open>http://[fc00::1]/\<close> pass, and the article route fetches the
  loopback URL whatever the network answers.
\<close>

theorem ipv6_literal_passes_guard:
  "net_isIP ''[::1]'' = 0
   \<and> url_guard example_URL ''http://[::1]/'' = None
   \<and> url_guard example_URL ''http://[fc00::1]/'' = None
   \<and> snd (article_route (example_env out) (Some ''http://[::1]/'')) = [''http://[::1]/'']"
proof -
  have g: "url_guard example_URL ''http://[::1]/'' = None"
    by (simp add: guard_defs char_class_defs ip_defs)
  have "snd (article_route (example_env out) (Some ''http://[::1]/'')) = [''http://[::1]/'']"
    using g
    by (simp add: article_route_def example_env_def
        split: fetch_outcome.split read_result.split)
  moreover have "net_isIP ''[::1]'' = 0"
    by (simp add: char_class_defs ip_defs)
  moreover have "url_guard example_URL ''http://[fc00::1]/'' = None"
    by (simp add: guard_defs char_class_defs ip_defs)
  ultimately show ?thesis using g by simp
qed

text \<open>
  C3. A URL that the guard rejects (malformed, a scheme other than http and https,
  \<open>localhost\<close> or a name under it, a private or loopback IP literal) is answered with
  that 400 response by both routes, and the list of network calls is empty.
\<close>

theorem rejected_url_is_never_fetched:
  assumes "url_guard (URL_new e) url = Some r" and "url \<noteq> []"
  shows "article_route e (Some url) = (r, [])
     \<and> summarize_route e (Some url) rawText = (r, [])
     \<and> status r = 400
     \<and> payload r \<in> ErrorBody ` {''Invalid url'', ''Invalid protocol'', ''Disallowed host'', ''Disallowed IP''}"
proof -
  have "article_route e (Some url) = (r, [])"
    using assms by (simp add: article_route_def)
  moreover have "summarize_route e (Some url) rawText = (r, [])"
    using assms by (simp add: summarize_route_def)
  moreover have "status r = 400
     \<and> payload r \<in> ErrorBody ` {''Invalid url'', ''Invalid protocol'', ''Disallowed host'', ''Disallowed IP''}"
    using assms(1)
    by (auto simp: url_guard_def Let_def split: option.splits if_splits)
  ultimately show ?thesis by simp
qed

theorem rejected_url_is_never_fetched_witness:
  "article_route (example_env (Resolves \<lparr>ok = True, body = Reader []\<rparr>)) (Some ''http://localhost/x'')
     = (Response 400 (ErrorBody ''Disallowed host''), [])
   \<and> summarize_route (example_env (Resolves \<lparr>ok = True, body = Reader []\<rparr>))
        (Some ''http://localhost/x'') (Some ''Some text.'')
     = (Response 400 (ErrorBody ''Disallowed host''), [])"
proof -
  have h: "url_guard (URL_new (example_env (Resolves \<lparr>ok = True, body = Reader []\<rparr>)))
      ''http://localhost/x'' = Some (Response 400 (ErrorBody ''Disallowed host''))"
    by (simp add: guard_defs char_class_defs)
  have n: "''http://localhost/x'' \<noteq> []" by simp
  show ?thesis
    using rejected_url_is_never_fetched [OF h n, of "Some ''Some text.''"] by simp
qed

text \<open>
  The article route answers an upstream status outside 2xx with 502 and a body over its
  ceiling with 413.
\<close>

lemma article_route_status_examples:
  "article_route (example_env (Resolves \<lparr>ok = False, body = Reader []\<rparr>))
     (Some ''http://example.com/a'')
     = (Response 502 (ErrorBody ''Failed to fetch remote''), [''http://example.com/a''])"
  "article_route
     (example_env (Resolves \<lparr>ok = True, body = Reader [Value (Some (replicate 204801 CHR ''a''))]\<rparr>))
     (Some ''http://example.com/a'')
     = (Response 413 (ErrorBody ''Fetched content too large''), [''http://example.com/a''])"
  "article_route (example_env (Rejects AbortError)) (Some ''http://example.com/a'')
     = (Response 504 (ErrorBody ''Timeout fetching remote''), [''http://example.com/a''])"
  by (simp_all add: article_route_def guard_defs char_class_defs ip_defs on_error_def
      read_body_def MAX_BYTES_article_def AbortError_def)

text \<open>
  C6 (fails on the code). In the summarize route an upstream status outside 2xx is to give
  502 and a body over the ceiling 413. \<open>fetchTextFromUrl\<close> throws a plain \<open>Error\<close> in both
  cases and the \<open>catch\<close> clause of the route only tells \<open>AbortError\<close> (504) from the rest:
  both requests are answered with 500.
\<close>

theorem summarize_route_upstream_and_too_large_give_500:
  "summarize_route (example_env (Resolves \<lparr>ok = False, body = Reader []\<rparr>))
     (Some ''http://example.com/a'') None
     = (Response 500 (ErrorBody ''Server error''), [''http://example.com/a''])
   \<and> summarize_route
       (example_env (Resolves \<lparr>ok = True, body = Reader [Value (Some (replicate 307201 CHR ''a''))]\<rparr>))
       (Some ''http://example.com/a'') None
     = (Response 500 (ErrorBody ''Server error''), [''http://example.com/a''])
   \<and> summarize_route (example_env (Rejects AbortError)) (Some ''http://example.com/a'') None
     = (Response 504 (ErrorBody ''Timeout fetching remote''), [''http://example.com/a''])"
  by (simp add: summarize_route_def guard_defs char_class_defs ip_defs fetchTextFromUrl_def
      on_error_def read_body_def MAX_BYTES_summarize_def AbortError_def)

text \<open>
  C10. With a non-empty \<open>url\<close> parameter the summarize route takes the URL branch: the
  answer is the one it gives with no \<open>text\<close> parameter at all, whatever \<open>text\<close> holds.
\<close>

theorem url_takes_precedence_over_text:
  assumes "url \<noteq> []"
  shows "summarize_route e (Some url) (Some t) = summarize_route e (Some url) None
     \<and> summarize_route e (Some url) (Some t) =
         (case url_guard (URL_new e) url of
            Some r \<Rightarrow> (r, [])
          | None \<Rightarrow>
              (case fetchTextFromUrl e url of
                 (Inl err, net) \<Rightarrow> (on_error err, net)
               | (Inr text, net) \<Rightarrow> (summarize_text text, net)))"
  using assms by (simp add: summarize_route_def)

theorem url_takes_precedence_over_text_witness:
  "summarize_route (example_env (Rejects AbortError)) (Some ''http://example.com/a'') (Some ''Some text.'')
     = summarize_route (example_env (Rejects AbortError)) (Some ''http://example.com/a'') None
   \<and> summarize_route (example_env (Rejects AbortError)) (Some ''http://example.com/a'') (Some ''Some text.'')
     = (Response 504 (ErrorBody ''Timeout fetching remote''), [''http://example.com/a''])"
proof -
  have n: "''http://example.com/a'' \<noteq> []" by simp
  have g: "url_guard example_URL ''http://example.com/a'' = None"
    by (simp add: guard_defs char_class_defs ip_defs)
  note t = url_takes_precedence_over_text
    [OF n, of "example_env (Rejects AbortError)" "''Some text.''"]
  from t have a: "summarize_route (example_env (Rejects AbortError)) (Some ''http://example.com/a'')
      (Some ''Some text.'')
    = summarize_route (example_env (Rejects AbortError)) (Some ''http://example.com/a'') None"
    by (rule conjunct1)
  from t have "summarize_route (example_env (Rejects AbortError)) (Some ''http://example.com/a'')
      (Some ''Some text.'')
    = (case url_guard (URL_new (example_env (Rejects AbortError))) ''http://example.com/a'' of
         Some r \<Rightarrow> (r, [])
       | None \<Rightarrow>
           (case fetchTextFromUrl (example_env (Rejects AbortError)) ''http://example.com/a'' of
              (Inl err, net) \<Rightarrow> (on_error err, net)
            | (Inr text, net) \<Rightarrow> (summarize_text text, net)))"
    by (rule conjunct2)
  also have "\<dots> = (Response 504 (ErrorBody ''Timeout fetching remote''), [''http://example.com/a''])"
    using g by (simp add: example_env_def fetchTextFromUrl_def on_error_def AbortError_def)
  finally show ?thesis using a by (rule_tac conjI)
qed

section \<open>The byte ceiling\<close>




text \<open>The matches of the four expressions are never empty, so the test on the lengths
  in \<open>replace_all\<close> always succeeds for them.\<close>

lemma find_close_shorter: "find_close pat s = Some r \<Longrightarrow> length r \<le> length s"
  by (induction s) (auto split: if_splits)

lemma match_block_shorter: "match_block tag s = Some r \<Longrightarrow> length r < length s"
proof -
  assume a: "match_block tag s = Some r"
  then obtain x r' where d: "dropWhile (\<lambda>c. c \<noteq> CHR ''>'') (drop (Suc (length tag)) s) = x # r'"
    and f: "find_close (''</'' @ tag @ ''>'') r' = Some r"
    by (auto simp: match_block_def split: if_splits list.splits)
  have "length (x # r') \<le> length (drop (Suc (length tag)) s)"
    unfolding d[symmetric] by (rule length_dropWhile_le)
  then have "length r' < length s" by simp
  with find_close_shorter[OF f] show ?thesis by simp
qed

lemma match_tag_shorter: "match_tag s = Some r \<Longrightarrow> length r < length s"
proof -
  assume a: "match_tag s = Some r"
  then obtain c cs x where s: "s = c # cs" and d: "dropWhile (\<lambda>c. c \<noteq> CHR ''>'') cs = x # r"
    by (auto simp: match_tag_def split: if_splits list.splits)
  have "length (x # r) \<le> length cs"
    unfolding d[symmetric] by (rule length_dropWhile_le)
  then show ?thesis using s by simp
qed

lemma match_blanks_shorter: "match_blanks s = Some r \<Longrightarrow> length r < length s"
  by (auto simp: match_blanks_def le_imp_less_Suc length_dropWhile_le split: if_splits list.splits)

lemma replace_all_unguarded:
  assumes "\<And>s r. m s = Some r \<Longrightarrow> length r < length s"
  shows "replace_all m (c # cs) =
     (case m (c # cs) of None \<Rightarrow> c # replace_all m cs | Some r \<Rightarrow> CHR '' '' # replace_all m r)"
  using assms[of "c # cs"] by (auto split: option.splits)

lemma replace_all_blocks:
  "replace_all (match_block tag) (c # cs) =
     (case match_block tag (c # cs) of
        None \<Rightarrow> c # replace_all (match_block tag) cs
      | Some r \<Rightarrow> CHR '' '' # replace_all (match_block tag) r)"
  by (rule replace_all_unguarded) (rule match_block_shorter)

lemma replace_all_tags:
  "replace_all match_tag (c # cs) =
     (case match_tag (c # cs) of
        None \<Rightarrow> c # replace_all match_tag cs
      | Some r \<Rightarrow> CHR '' '' # replace_all match_tag r)"
  by (rule replace_all_unguarded) (rule match_tag_shorter)

lemma replace_all_blanks:
  "replace_all match_blanks (c # cs) =
     (case match_blanks (c # cs) of
        None \<Rightarrow> c # replace_all match_blanks cs
      | Some r \<Rightarrow> CHR '' '' # replace_all match_blanks r)"
  by (rule replace_all_unguarded) (rule match_blanks_shorter)











section \<open>The ranker\<close>

subsection \<open>Loops over index ranges\<close>

lemma fold_upt_invariant:
  assumes "P a s" and "\<And>k s. a \<le> k \<Longrightarrow> k < b \<Longrightarrow> P k s \<Longrightarrow> P (Suc k) (f k s)"
    and "a \<le> m" and "m \<le> b"
  shows "P m (fold f [a..<m] s)"
  using assms(3,4)
proof (induction m rule: dec_induct)
  case base
  show ?case using assms(1) by simp
next
  case (step n)
  then have "P n (fold f [a..<n] s)" by simp
  then have "P (Suc n) (f n (fold f [a..<n] s))"
    using assms(2) step by simp
  then show ?case using step by simp
qed

lemma sim_ok_iff:
  "sim_ok n M \<longleftrightarrow> length M = n \<and> (\<forall>i<n. length (M ! i) = n)
     \<and> (\<forall>i<n. \<forall>j<n. M ! i ! j = M ! j ! i \<and> 0 \<le> M ! i ! j)"
  by (auto simp: sim_ok_def list_all_iff all_set_conv_all_nth)

lemma cosine_step_nonneg:
  "0 \<le> fst st \<Longrightarrow> 0 \<le> snd st \<Longrightarrow>
   0 \<le> fst (cosine_step b st entry) \<and> 0 \<le> snd (cosine_step b st entry)"
  by (cases st; cases entry) (simp add: cosine_step_def split: option.split)

lemma cosine_loop_nonneg:
  "0 \<le> fst st \<Longrightarrow> 0 \<le> snd st \<Longrightarrow>
   0 \<le> fst (foldl (cosine_step b) st a) \<and> 0 \<le> snd (foldl (cosine_step b) st a)"
proof (induction a arbitrary: st)
  case Nil
  then show ?case by simp
next
  case (Cons x a)
  from cosine_step_nonneg [OF Cons.prems, of b x]
  show ?case by (simp add: Cons.IH)
qed

lemma cosine_norm_nonneg:
  "0 \<le> nb \<Longrightarrow> 0 \<le> foldl (\<lambda>nb entry. nb + real (snd entry) * real (snd entry)) nb b"
  by (induction b arbitrary: nb) simp_all

lemma cosineSim_nonneg: "0 \<le> cosineSim a b"
proof -
  obtain dot na where f: "foldl (cosine_step b) (0, 0) a = (dot, na)"
    by (cases "foldl (cosine_step b) (0, 0) a")
  have "0 \<le> dot \<and> 0 \<le> na" using cosine_loop_nonneg [of "(0, 0)" b a] f by simp
  moreover have "0 \<le> foldl (\<lambda>nb entry. nb + real (snd entry) * real (snd entry)) 0 b"
    by (rule cosine_norm_nonneg) simp
  ultimately show ?thesis
    by (simp add: cosineSim_def f Let_def)
qed

lemma sim_step_entry:
  assumes "length M = n" "i < n" "j < n" "i \<noteq> j" "a < n" "b < n"
    "length (M ! i) = n" "length (M ! j) = n"
  shows "(let sim1 = M[i := (M ! i)[j := s]] in sim1[j := (sim1 ! j)[i := s]]) ! a ! b
    = (if (a = i \<and> b = j) \<or> (a = j \<and> b = i) then s else M ! a ! b)"
proof -
  have m1: "(M[i := (M ! i)[j := s]]) ! j = M ! j"
    using assms by simp
  show ?thesis
  proof (cases "a = j")
    case True
    then show ?thesis using assms m1 by (simp add: Let_def nth_list_update)
  next
    case False
    note naj = this
    show ?thesis
    proof (cases "a = i")
      case True
      then show ?thesis using assms m1 naj by (simp add: Let_def nth_list_update)
    next
      case False
      then show ?thesis using assms m1 naj by (simp add: Let_def)
    qed
  qed
qed

lemma sim_step_ok:
  assumes "sim_ok n M" "i < n" "j < n" "i \<noteq> j" "0 \<le> s"
  shows "sim_ok n (let sim1 = M[i := (M ! i)[j := s]] in sim1[j := (sim1 ! j)[i := s]])"
proof -
  let ?M2 = "let sim1 = M[i := (M ! i)[j := s]] in sim1[j := (sim1 ! j)[i := s]]"
  from assms(1) have len: "length M = n" and rows: "\<And>k. k < n \<Longrightarrow> length (M ! k) = n"
    and sym: "\<And>a b. a < n \<Longrightarrow> b < n \<Longrightarrow> M ! a ! b = M ! b ! a"
    and pos: "\<And>a b. a < n \<Longrightarrow> b < n \<Longrightarrow> 0 \<le> M ! a ! b"
    by (simp_all add: sim_ok_iff)
  have e: "?M2 ! a ! b = (if (a = i \<and> b = j) \<or> (a = j \<and> b = i) then s else M ! a ! b)"
    if "a < n" "b < n" for a b
    using sim_step_entry [OF len assms(2,3,4) that rows [OF assms(2)] rows [OF assms(3)]] .
  have l: "length ?M2 = n" using len by (simp add: Let_def)
  have r: "length (?M2 ! k) = n" if "k < n" for k
    using that len rows [of k] rows [OF assms(2)] rows [OF assms(3)] assms(2,3,4)
    by (simp add: Let_def nth_list_update)
  have s1: "?M2 ! a ! b = ?M2 ! b ! a" if "a < n" "b < n" for a b
    using e [OF that] e [OF that(2) that(1)] sym [OF that] by auto
  have p1: "0 \<le> ?M2 ! a ! b" if "a < n" "b < n" for a b
    using e [OF that] pos [OF that] assms(5) by auto
  show ?thesis
    unfolding sim_ok_iff using l r s1 p1 by blast
qed

lemma sim_matrix_ok: "sim_ok n (sim_matrix vectors n)"
proof -
  have init: "sim_ok n (replicate n (replicate n 0))"
    by (simp add: sim_ok_iff)
  have inner: "sim_ok n (fold (\<lambda>j sim.
                     let s = cosineSim (vectors ! i) (vectors ! j);
                         sim1 = sim[i := (sim ! i)[j := s]]
                     in sim1[j := (sim1 ! j)[i := s]])
               [i + 1..<n] M)" if "sim_ok n M" "i < n" for i M
  proof (rule fold_invariant [where Q = "\<lambda>j. i < j \<and> j < n"])
    show "sim_ok n M" by fact
  next
    fix j assume "j \<in> set [i + 1..<n]"
    then show "i < j \<and> j < n" by simp
  next
    fix j M' assume "i < j \<and> j < n" "sim_ok n M'"
    then show "sim_ok n (let s = cosineSim (vectors ! i) (vectors ! j);
                         sim1 = M'[i := (M' ! i)[j := s]]
                     in sim1[j := (sim1 ! j)[i := s]])"
      using sim_step_ok [of n M' i j "cosineSim (vectors ! i) (vectors ! j)"] that(2)
      by (simp add: cosineSim_nonneg Let_def)
  qed
  show ?thesis
    unfolding sim_matrix_def
  proof (rule fold_invariant [where Q = "\<lambda>i. i < n"])
    show "sim_ok n (replicate n (replicate n 0))" by fact
  next
    fix i assume "i \<in> set [0..<n]"
    then show "i < n" by simp
  next
    fix i M assume a: "i < n" "sim_ok n M"
    show "sim_ok n (fold (\<lambda>j sim.
                     let s = cosineSim (vectors ! i) (vectors ! j);
                         sim1 = sim[i := (sim ! i)[j := s]]
                     in sim1[j := (sim1 ! j)[i := s]])
               [i + 1..<n] M)"
      by (rule inner [OF a(2) a(1)])
  qed
qed

subsection \<open>One pass of the ranking loop\<close>

lemma inner_fold:
  "i < length nx \<Longrightarrow>
   fold (\<lambda>j nx. if c j then nx else nx[i := nx ! i + g j]) [0..<m] nx
     = nx[i := nx ! i + (\<Sum>j<m. if c j then 0 else (g j :: real))]"
  by (induction m) (simp_all add: add.assoc)

lemma rank_next:
  "fold (\<lambda>i (nx :: real list).
                    if rowSum ! i = 0 then nx
                    else fold (\<lambda>j nx.
                                 if sim ! j ! i \<le> 0 then nx
                                 else nx[i := nx ! i
                                               + d * (sim ! j ! i / rowSum ! j) * scores ! j])
                           [0..<n] nx) [0..<n] (replicate n base)
     = map (\<lambda>i. base + (if rowSum ! i = 0 then 0
                          else (\<Sum>j<n. rank_term d sim rowSum scores i j))) [0..<n]"
proof -
  define upd where "upd = (\<lambda>i (nx :: real list).
                    if rowSum ! i = 0 then nx
                    else fold (\<lambda>j nx.
                                 if sim ! j ! i \<le> 0 then nx
                                 else nx[i := nx ! i
                                               + d * (sim ! j ! i / rowSum ! j) * scores ! j])
                           [0..<n] nx)"
  let ?S = "\<lambda>i. \<Sum>j<n. rank_term d sim rowSum scores i j"
  let ?P = "\<lambda>m nx. length nx = n
      \<and> (\<forall>k<n. nx ! k = base + (if k < m \<and> rowSum ! k \<noteq> 0 then ?S k else 0))"
  have step: "?P (Suc k) (upd k nx)" if "k < n" "?P k nx" for k nx
  proof (cases "rowSum ! k = 0")
    case True
    then have "upd k nx = nx" by (simp add: upd_def)
    moreover have "?P (Suc k) nx" using that True by (auto simp: less_Suc_eq)
    ultimately show ?thesis by simp
  next
    case False
    have len: "k < length nx" using that by simp
    have "upd k nx = nx[k := nx ! k + ?S k]"
      using False inner_fold [OF len, of "\<lambda>j. sim ! j ! k \<le> 0"
          "\<lambda>j. d * (sim ! j ! k / rowSum ! j) * scores ! j" n]
      by (simp add: upd_def rank_term_def)
    moreover have "?P (Suc k) (nx[k := nx ! k + ?S k])"
      using that False by (auto simp: nth_list_update less_Suc_eq)
    ultimately show ?thesis by simp
  qed
  have "?P n (fold (upd) [0..<n] (replicate n base))"
    by (rule fold_upt_invariant [where P = ?P and b = n]) (use step in auto)
  then show ?thesis
    unfolding upd_def by (auto simp: list_eq_iff_nth_eq)
qed

lemma rank_copy:
  "length scores = n \<Longrightarrow> length nx = n \<Longrightarrow>
   fold (\<lambda>k scores. scores[k := nx ! k]) [0..<n] scores = nx"
proof -
  assume l: "length scores = n" "length nx = n"
  let ?P = "\<lambda>m sc. length sc = n \<and> (\<forall>k<n. sc ! k = (if k < m then nx ! k else scores ! k))"
  have "?P n (fold (\<lambda>k scores. scores[k := nx ! k]) [0..<n] scores)"
    by (rule fold_upt_invariant [where P = ?P and b = n])
       (use l in \<open>auto simp: nth_list_update less_Suc_eq\<close>)
  then show ?thesis using l by (auto simp: list_eq_iff_nth_eq)
qed

lemma rank_step_eq:
  assumes "length scores = n"
  shows "rank_step d n sim rowSum scores
     = map (\<lambda>i. (1 - d) / real n + (if rowSum ! i = 0 then 0
                          else (\<Sum>j<n. rank_term d sim rowSum scores i j))) [0..<n]"
  unfolding rank_step_def Let_def rank_next
  by (rule rank_copy [OF assms]) simp

subsection \<open>The loop computes the recurrence\<close>

lemma foldl_plus_sum_list: "foldl (+) a xs = a + sum_list (xs :: real list)"
  by (induction xs arbitrary: a) simp_all

lemma row_sums_eq: "map (\<lambda>row. foldl (+) 0 row) sim = map sum_list (sim :: real list list)"
  by (simp add: foldl_plus_sum_list)

lemma sum_list_filter_upt:
  "sum_list (map f (filter P [0..<n])) = (\<Sum>j<n. if P j then (f j :: real) else 0)"
  by (simp add: sum_list_map_filter' interv_sum_list_conv_sum_set_nat atLeast0LessThan)

lemma spec_update_eq:
  "spec_update d n sim rowSum scores =
     map (\<lambda>i. (1 - d) / real n
             + d * (\<Sum>j<n. if rowSum ! j \<noteq> 0 \<and> 0 < sim ! j ! i
                             then sim ! j ! i / rowSum ! j * scores ! j else 0))
       [0..<n]"
  by (simp only: spec_update_def sum_list_filter_upt)

lemma row_sum_nth:
  assumes "sim_ok n sim" "j < n"
  shows "map sum_list sim ! j = (\<Sum>k<n. sim ! j ! k)"
  using assms by (simp add: sim_ok_iff sum_list_sum_nth atLeast0LessThan)

lemma row_sum_pos:
  assumes "sim_ok n sim" "j < n" "i < n" "0 < sim ! j ! i"
  shows "0 < map sum_list sim ! j"
proof -
  have "sim ! j ! i \<le> (\<Sum>k<n. sim ! j ! k)"
    by (rule member_le_sum) (use assms in \<open>auto simp: sim_ok_iff\<close>)
  then show ?thesis using assms row_sum_nth [OF assms(1,2)] by simp
qed

lemma row_sum_zero:
  assumes "sim_ok n sim" "i < n" "j < n" "map sum_list sim ! i = 0"
  shows "sim ! j ! i = 0"
proof -
  have "(\<Sum>k<n. sim ! i ! k) = 0" using assms row_sum_nth [OF assms(1,2)] by simp
  moreover have "\<forall>k\<in>{..<n}. 0 \<le> sim ! i ! k" using assms by (auto simp: sim_ok_iff)
  ultimately have "\<forall>k\<in>{..<n}. sim ! i ! k = 0"
    using sum_nonneg_eq_0_iff [of "{..<n}" "\<lambda>k. sim ! i ! k"] by auto
  then have "sim ! i ! j = 0" using assms by simp
  then show ?thesis using assms by (simp add: sim_ok_iff)
qed

lemma rank_step_is_spec_update:
  assumes "sim_ok n sim" "length scores = n"
  shows "rank_step d n sim (map sum_list sim) scores = spec_update d n sim (map sum_list sim) scores"
proof -
  let ?R = "map sum_list sim"
  have "(if ?R ! i = 0 then 0 else (\<Sum>j<n. rank_term d sim ?R scores i j))
      = d * (\<Sum>j<n. if ?R ! j \<noteq> 0 \<and> 0 < sim ! j ! i
                             then sim ! j ! i / ?R ! j * scores ! j else 0)"
    if i: "i < n" for i
  proof (cases "?R ! i = 0")
    case True
    have "(\<Sum>j<n. if ?R ! j \<noteq> 0 \<and> 0 < sim ! j ! i
                             then sim ! j ! i / ?R ! j * scores ! j else 0) = 0"
      by (rule sum.neutral) (use row_sum_zero [OF assms(1) i _ True] in auto)
    then show ?thesis using True by simp
  next
    case False
    have "rank_term d sim ?R scores i j
        = d * (if ?R ! j \<noteq> 0 \<and> 0 < sim ! j ! i then sim ! j ! i / ?R ! j * scores ! j else 0)"
      if "j \<in> {..<n}" for j
      using row_sum_pos [OF assms(1) _ i, of j] that
      by (auto simp: rank_term_def not_le)
    then have "(\<Sum>j<n. rank_term d sim ?R scores i j)
        = (\<Sum>j<n. d * (if ?R ! j \<noteq> 0 \<and> 0 < sim ! j ! i then sim ! j ! i / ?R ! j * scores ! j else 0))"
      by (rule sum.cong [OF refl])
    then show ?thesis using False by (simp add: sum_distrib_left)
  qed
  then show ?thesis
    unfolding rank_step_eq [OF assms(2)] spec_update_eq
    by (intro map_cong) auto
qed

lemma length_spec_update: "length (spec_update d n sim rowSum scores) = n"
  by (simp add: spec_update_def)

lemma funpow_spec_length:
  "length scores = n \<Longrightarrow> length (((spec_update d n sim rowSum) ^^ its) scores) = n"
  by (induction its) (simp_all add: length_spec_update)

lemma rank_scores_eq_spec: "rank_scores vectors n d its = spec_scores vectors n d its"
proof -
  let ?sim = "sim_matrix vectors n"
  let ?R = "map sum_list ?sim"
  have ok: "sim_ok n ?sim" by (rule sim_matrix_ok)
  have "((rank_step d n ?sim ?R) ^^ its) scores = ((spec_update d n ?sim ?R) ^^ its) scores"
    if "length scores = n" for scores
  proof (induction its)
    case 0
    show ?case by simp
  next
    case (Suc its)
    have "length (((spec_update d n ?sim ?R) ^^ its) scores) = n"
      using that by (rule funpow_spec_length)
    then show ?case
      using Suc rank_step_is_spec_update [OF ok] by simp
  qed
  then show ?thesis
    by (simp add: rank_scores_def spec_scores_def row_sums_eq Let_def)
qed

subsection \<open>Sorting\<close>

lemma js_insert_is_insort:
  "(\<And>b. b \<in> set ys \<Longrightarrow> (cmp x b \<le> 0) = (key x \<le> (key b :: 'k :: linorder)))
   \<Longrightarrow> js_insert cmp x ys = insort_key key x ys"
  by (induction ys) simp_all

lemma js_sort_is_sort_key:
  "(\<And>a b. a \<in> set xs \<Longrightarrow> b \<in> set xs \<Longrightarrow> (cmp a b \<le> 0) = (key a \<le> (key b :: 'k :: linorder)))
   \<Longrightarrow> js_sort cmp xs = sort_key key xs"
proof (induction xs)
  case Nil
  show ?case by (simp add: js_sort_def)
next
  case (Cons x xs)
  have ih: "js_sort cmp xs = sort_key key xs"
    by (rule Cons.IH) (simp add: Cons.prems)
  have "js_insert cmp x (sort_key key xs) = insort_key key x (sort_key key xs)"
    by (rule js_insert_is_insort) (simp add: Cons.prems)
  then show ?case using ih by (simp add: js_sort_def)
qed

lemma js_insert_map:
  "js_insert cmp (g x) (map g ys) = map g (js_insert (\<lambda>a b. cmp (g a) (g b)) x ys)"
  by (induction ys) simp_all

lemma js_sort_map:
  "js_sort cmp (map g xs) = map g (js_sort (\<lambda>a b. cmp (g a) (g b)) xs)"
  by (induction xs) (simp_all add: js_sort_def js_insert_map)

lemma js_sort_by_score:
  "js_sort (\<lambda>a b. score b - score a) xs = sort_key (\<lambda>r. - score r) (xs :: ranked_sentence list)"
  by (rule js_sort_is_sort_key) auto

lemma js_sort_by_idx:
  "js_sort cmp_idx (map Obj xs) = map Obj (sort_key idx xs)"
proof -
  have "js_sort (\<lambda>a b. cmp_idx (Obj a) (Obj b)) xs = sort_key idx xs"
    by (rule js_sort_is_sort_key) (simp add: cmp_idx_def item_idx_def)
  then show ?thesis by (simp add: js_sort_map)
qed

lemma zip_scores_upt:
  "length scores = n \<Longrightarrow>
   map (\<lambda>(s, i). \<lparr>idx = i, score = s\<rparr>) (zip scores [0..<n])
     = map (\<lambda>i. \<lparr>idx = i, score = scores ! i\<rparr>) [0..<n]"
  by (auto simp: list_eq_iff_nth_eq)

lemma length_rank_scores: "length (rank_scores vectors n d its) = n"
  unfolding rank_scores_eq_spec spec_scores_def Let_def
  by (rule funpow_spec_length) simp

lemma textRank_ranking:
  assumes "2 \<le> length sentences"
  shows "textRank sentences vectors opts
     = map Obj (ranking (rank_scores vectors (length sentences) (opt_damping opts) (opt_iters opts)))"
  using assms
  by (simp add: textRank_def Let_def js_sort_by_score ranking_def
      zip_scores_upt [OF length_rank_scores] length_rank_scores)

lemma floor_fifth: "nat \<lfloor>real n * 0.2\<rfloor> = n div 5"
proof -
  have "real n * 0.2 = real n / real 5" by simp
  then have "\<lfloor>real n * 0.2\<rfloor> = \<lfloor>real n / real 5\<rfloor>" by simp
  also have "\<dots> = int (n div 5)" by (rule floor_divide_of_nat_eq)
  finally show ?thesis by simp
qed

lemma topCount_eq: "topCount n = min 3 (max 1 (n div 5))"
  unfolding topCount_def floor_fifth ..

lemma set_ranking: "set (ranking S) = (\<lambda>i. \<lparr>idx = i, score = S ! i\<rparr>) ` {..<length S}"
  by (simp add: ranking_def atLeast0LessThan)

lemma length_ranking: "length (ranking S) = length S"
  by (simp add: ranking_def)

lemma ranking_entry: "r \<in> set (ranking S) \<Longrightarrow> idx r < length S \<and> score r = S ! idx r"
  by (auto simp: set_ranking)

lemma idx_ranking: "set (map idx (ranking S)) = {..<length S}"
  by (force simp: set_ranking)

lemma distinct_idx_ranking: "distinct (map idx (ranking S))"
proof -
  let ?xs = "map (\<lambda>i. \<lparr>idx = i, score = S ! i\<rparr>) [0..<length S]"
  have "map idx ?xs = [0..<length S]" by (simp add: map_idI o_def)
  then have d: "distinct (map idx ?xs)" by simp
  then have "distinct ?xs \<and> inj_on idx (set ?xs)" by (simp only: distinct_map)
  then have "distinct (sort_key (\<lambda>r. - score r) ?xs) \<and> inj_on idx (set (sort_key (\<lambda>r. - score r) ?xs))"
    by simp
  then show ?thesis unfolding ranking_def by (simp only: distinct_map)
qed

lemma sorted_ranking: "sorted (map (\<lambda>r. - score r) (ranking S))"
  unfolding ranking_def by (rule sorted_sort_key)

subsection \<open>Worked examples\<close>










text \<open>Two sentences with one common token out of two each.\<close>

lemma upt_two: "[0..<2] = [0, 1]" "[0 + 1..<2] = [1]" "[1 + 1..<2] = []"
  by (simp_all add: upt_conv_Cons)

lemma sim_matrix_shared_example:
  "sim_matrix [[(0, 1), (1, 1)], [(0, 1), (2, 1)]] 2 = [[0, 1 / 2], [1 / 2, 0]]"
  by (simp add: sim_matrix_def upt_two cosineSim_def cosine_step_def eval_nat_numeral Let_def)

lemma spec_update_shared_example:
  "spec_update 0.85 2 [[0, 1 / 2], [1 / 2, 0]] [1 / 2, 1 / 2] [1 / 2, 1 / 2] = [1 / 2, 1 / 2]"
  by (simp add: spec_update_def upt_two)

lemma funpow_fixed: "f x = x \<Longrightarrow> (f ^^ k) x = x"
  by (induction k) simp_all

lemma spec_scores_shared_example:
  "spec_scores [[(0, 1), (1, 1)], [(0, 1), (2, 1)]] 2 0.85 k = [1 / 2, 1 / 2]"
proof -
  have r: "replicate 2 (1 / real 2) = [1 / 2, 1 / 2]" by (simp add: numeral_2_eq_2)
  have m: "map sum_list [[0, 1 / 2], [1 / 2, 0 :: real]] = [1 / 2, 1 / 2]" by simp
  show ?thesis
    unfolding spec_scores_def Let_def sim_matrix_shared_example r m
    by (rule funpow_fixed) (rule spec_update_shared_example)
qed

lemma sorted_pairs_shared_example:
  "map Obj (js_sort (\<lambda>a b. score b - score a)
       (map (\<lambda>(s, i). \<lparr>idx = i, score = s\<rparr>) (zip [1 / 2, 1 / 2] [0..<2])))
     = [Obj \<lparr>idx = 0, score = 1 / 2\<rparr>, Obj \<lparr>idx = 1, score = 1 / 2\<rparr>]"
  by (simp add: upt_two js_sort_def)


subsection \<open>The recurrence\<close>

text \<open>
  C4. For two or more sentences, with one term vector per sentence, the ranker returns
  the scores of the recurrence \<open>spec_scores\<close>: every score starts at \<open>1/N\<close> and is
  recomputed \<open>opt_iters opts\<close> times as \<open>(1-d)/N + d * \<Sum>\<^sub>j (sim[j][i] / rowSum[j]) * score[j]\<close>
  over the \<open>j\<close> with a non-zero row sum and a positive similarity to \<open>i\<close>, each time from
  the scores of the pass before; the scores are then paired with their indices and
  sorted. The options of the summarize route give 30 passes with \<open>d = 0.85\<close>, no options
  give 20. (Numbers are reals; the in-place loops of the code compute the same list.)
\<close>

theorem textRank_runs_the_recurrence:
  assumes "2 \<le> length sentences" and "length vectors = length sentences"
  shows "textRank sentences vectors opts
      = map Obj
          (js_sort (\<lambda>a b. score b - score a)
             (map (\<lambda>(s, i). \<lparr>idx = i, score = s\<rparr>)
                (zip (spec_scores vectors (length sentences) (opt_damping opts) (opt_iters opts))
                   [0..<length sentences])))
     \<and> opt_damping \<lparr>damping = Some 0.85, iters = Some 30\<rparr> = 0.85
     \<and> opt_iters \<lparr>damping = Some 0.85, iters = Some 30\<rparr> = 30
     \<and> opt_iters \<lparr>damping = None, iters = None\<rparr> = 20"
proof -
  have "length sentences \<noteq> 0" "length sentences \<noteq> 1" using assms(1) by auto
  then have "textRank sentences vectors opts
      = map Obj
          (js_sort (\<lambda>a b. score b - score a)
             (map (\<lambda>(s, i). \<lparr>idx = i, score = s\<rparr>)
                (zip (rank_scores vectors (length sentences) (opt_damping opts) (opt_iters opts))
                   [0..<length sentences])))"
    by (simp add: textRank_def Let_def)
  then show ?thesis
    by (simp add: rank_scores_eq_spec opt_damping_def opt_iters_def)
qed

theorem textRank_runs_the_recurrence_witness:
  "textRank [''Cats sleep.'', ''Cats purr.''] [[(0, 1), (1, 1)], [(0, 1), (2, 1)]]
       \<lparr>damping = Some 0.85, iters = Some 30\<rparr>
     = [Obj \<lparr>idx = 0, score = 1 / 2\<rparr>, Obj \<lparr>idx = 1, score = 1 / 2\<rparr>]"
proof -
  have h1: "2 \<le> length [''Cats sleep.'', ''Cats purr.'']" by simp
  have h2: "length [[(0, 1), (1, 1)], [(0, 1), (2 :: nat, 1 :: nat)]] = length [''Cats sleep.'', ''Cats purr.'']"
    by simp
  have l: "length [''Cats sleep.'', ''Cats purr.''] = 2" by simp
  note t = textRank_runs_the_recurrence [OF h1 h2, of "\<lparr>damping = Some 0.85, iters = Some 30\<rparr>"]
  from t have d: "opt_damping \<lparr>damping = Some 0.85, iters = Some 30\<rparr> = 0.85" by blast
  from t have i: "opt_iters \<lparr>damping = Some 0.85, iters = Some 30\<rparr> = 30" by blast
  from t have "textRank [''Cats sleep.'', ''Cats purr.''] [[(0, 1), (1, 1)], [(0, 1), (2, 1)]]
       \<lparr>damping = Some 0.85, iters = Some 30\<rparr>
     = map Obj
          (js_sort (\<lambda>a b. score b - score a)
             (map (\<lambda>(s, i). \<lparr>idx = i, score = s\<rparr>)
                (zip (spec_scores [[(0, 1), (1, 1)], [(0, 1), (2, 1)]] 2 0.85 30) [0..<2])))"
    unfolding d i l by (rule conjunct1)
  then show ?thesis
    unfolding spec_scores_shared_example sorted_pairs_shared_example .
qed


subsection \<open>The shortcuts for no sentence and one sentence\<close>

text \<open>
  C8 as stated fails: for one sentence the ranker does not return an (index, score)
  pair. \<open>return [0]\<close> gives an array holding the bare number 0, whose \<open>idx\<close> is
  \<open>undefined\<close>; it is not the object \<open>{idx: 0, score: 1}\<close>.
\<close>

theorem single_sentence_is_bare_index:
  "textRank [''Only one sentence.''] [[(0, 1), (1, 1), (2, 1)]] \<lparr>damping = None, iters = None\<rparr>
     = [Num 0]
   \<and> map item_idx
        (textRank [''Only one sentence.''] [[(0, 1), (1, 1), (2, 1)]] \<lparr>damping = None, iters = None\<rparr>)
     = [None]
   \<and> textRank [''Only one sentence.''] [[(0, 1), (1, 1), (2, 1)]] \<lparr>damping = None, iters = None\<rparr>
     \<noteq> [Obj \<lparr>idx = 0, score = 1\<rparr>]"
  by (simp add: textRank_def item_idx_def)

text \<open>
  C8, amended. The ranker returns the empty array exactly for no sentence, and the
  array \<open>[0]\<close>, the bare index of the sentence with no score (its full rank is implicit),
  exactly for one sentence. The result always has one element per sentence, and its
  elements are bare numbers only in these two cases: for two or more sentences every
  element is an object \<open>{idx, score}\<close>.
\<close>

theorem textRank_shortcut_results:
  "(textRank sentences vectors opts = []) = (length sentences = 0)
   \<and> (textRank sentences vectors opts = [Num 0]) = (length sentences = 1)
   \<and> length (textRank sentences vectors opts) = length sentences
   \<and> list_all (\<lambda>t. item_idx t = None) (textRank sentences vectors opts) = (length sentences \<le> 1)"
proof -
  consider "length sentences = 0" | "length sentences = 1" | "2 \<le> length sentences"
    by linarith
  then show ?thesis
  proof cases
    case 1
    then show ?thesis by (simp add: textRank_def)
  next
    case 2
    then have "textRank sentences vectors opts = [Num 0]" by (simp add: textRank_def Let_def)
    then show ?thesis using 2 by (simp add: item_idx_def)
  next
    case 3
    let ?S = "rank_scores vectors (length sentences) (opt_damping opts) (opt_iters opts)"
    have tr: "textRank sentences vectors opts = map Obj (ranking ?S)"
      by (rule textRank_ranking [OF 3])
    have len: "length (ranking ?S) = length sentences"
      by (simp add: length_ranking length_rank_scores)
    with 3 obtain r rs where rr: "ranking ?S = r # rs"
      by (cases "ranking ?S") auto
    have a: "textRank sentences vectors opts \<noteq> []" unfolding tr rr by simp
    have b: "textRank sentences vectors opts \<noteq> [Num 0]" unfolding tr rr by simp
    have c: "length (textRank sentences vectors opts) = length sentences"
      unfolding tr using len by simp
    have d: "\<not> list_all (\<lambda>t. item_idx t = None) (textRank sentences vectors opts)"
      unfolding tr rr by (simp add: item_idx_def)
    have e: "length sentences \<noteq> 0" "length sentences \<noteq> 1" "\<not> length sentences \<le> 1"
      using 3 by linarith+
    show ?thesis using a b c d e by simp
  qed
qed

subsection \<open>Sum and sign of the scores\<close>















subsection \<open>Selection\<close>

lemma ranking_top_dominates:
  assumes "r \<in> set (take k (ranking S))" "r' \<in> set (drop k (ranking S))"
  shows "score r' \<le> score r"
proof -
  have "sorted (map (\<lambda>r. - score r) (take k (ranking S)) @ map (\<lambda>r. - score r) (drop k (ranking S)))"
    using sorted_ranking [of S] by (simp only: map_append [symmetric] append_take_drop_id)
  then have "- score r \<le> - score r'"
    using assms by (auto simp: sorted_append)
  then show ?thesis by simp
qed

lemma top_indices_props:
  assumes "k \<le> length S"
  shows "length (top_indices k S) = k" "sorted (top_indices k S)" "distinct (top_indices k S)"
    "\<forall>i\<in>set (top_indices k S). i < length S"
    "\<forall>i\<in>set (top_indices k S). \<forall>j<length S. j \<notin> set (top_indices k S) \<longrightarrow> S ! j \<le> S ! i"
proof -
  let ?R = "ranking S"
  show "length (top_indices k S) = k"
    using assms by (simp add: top_indices_def length_ranking)
  show "sorted (top_indices k S)"
    unfolding top_indices_def by (rule sorted_sort_key)
  have "distinct (map idx (take k ?R))"
    using distinct_idx_ranking [of S] by (simp only: take_map [symmetric] distinct_take)
  then have "distinct (take k ?R) \<and> inj_on idx (set (take k ?R))" by (simp only: distinct_map)
  then have "distinct (sort_key idx (take k ?R)) \<and> inj_on idx (set (sort_key idx (take k ?R)))"
    by simp
  then show "distinct (top_indices k S)"
    unfolding top_indices_def by (simp only: distinct_map)
  have st: "set (top_indices k S) = idx ` set (take k ?R)"
    by (simp add: top_indices_def)
  show "\<forall>i\<in>set (top_indices k S). i < length S"
    unfolding st using ranking_entry [of _ S] by (auto dest: in_set_takeD)
  show "\<forall>i\<in>set (top_indices k S). \<forall>j<length S. j \<notin> set (top_indices k S) \<longrightarrow> S ! j \<le> S ! i"
  proof (intro ballI allI impI)
    fix i j assume i: "i \<in> set (top_indices k S)" and j: "j < length S" "j \<notin> set (top_indices k S)"
    from i obtain r where r: "r \<in> set (take k ?R)" "idx r = i" unfolding st by auto
    from j(1) have "j \<in> set (map idx ?R)" by (simp only: idx_ranking lessThan_iff)
    then have "j \<in> idx ` set (take k ?R) \<or> j \<in> idx ` set (drop k ?R)"
      by (metis (no_types, lifting) Un_iff append_take_drop_id image_Un set_append set_map)
    with j(2) have "j \<in> idx ` set (drop k ?R)" unfolding st by simp
    then obtain r' where r': "r' \<in> set (drop k ?R)" "idx r' = j" by auto
    have "score r' \<le> score r" by (rule ranking_top_dominates [OF r(1) r'(1)])
    moreover have "score r = S ! i" using ranking_entry [of r S] r by (auto dest: in_set_takeD)
    moreover have "score r' = S ! j" using ranking_entry [of r' S] r' by (auto dest: in_set_dropD)
    ultimately show "S ! j \<le> S ! i" by simp
  qed
qed

lemma rank_and_select_eq:
  assumes "2 \<le> length sentences"
  shows "rank_and_select sentences
     = join_space (map (\<lambda>i. sentences ! i)
         (top_indices (topCount (length sentences))
            (rank_scores (fst (buildSentenceVectors sentences)) (length sentences) 0.85 30)))"
proof -
  let ?n = "length sentences"
  let ?S = "rank_scores (fst (buildSentenceVectors sentences)) ?n 0.85 30"
  let ?T = "sort_key idx (take (topCount ?n) (ranking ?S))"
  have tr: "textRank sentences (fst (buildSentenceVectors sentences)) \<lparr>damping = Some 0.85, iters = Some 30\<rparr>
      = map Obj (ranking ?S)"
    using textRank_ranking [OF assms] by (simp add: opt_damping_def opt_iters_def)
  have inb: "idx r < ?n" if "r \<in> set ?T" for r
    using that ranking_entry [of r ?S] by (auto simp: length_rank_scores dest: in_set_takeD)
  have "map (\<lambda>s. case s of None \<Rightarrow> [] | Some x \<Rightarrow> x)
          (map (\<lambda>t. case item_idx t of None \<Rightarrow> None | Some i \<Rightarrow> at_index sentences i) (map Obj ?T))
      = map (\<lambda>i. sentences ! i) (map idx ?T)"
    using inb by (simp add: item_idx_def at_index_def)
  moreover have "js_sort cmp_idx (take (topCount ?n) (map Obj (ranking ?S))) = map Obj ?T"
    by (simp only: take_map js_sort_by_idx)
  ultimately show ?thesis
    by (simp only: rank_and_select_def Let_def tr top_indices_def)
qed

lemma topCount_le: "0 < n \<Longrightarrow> topCount n \<le> n"
  by (simp add: topCount_eq)

lemma add_sentence_length:
  "length (snd (snd (add_sentence st s))) = Suc (length (snd (snd st)))"
  by (cases st) (simp add: add_sentence_def split: prod.splits)

lemma foldl_add_sentence_length:
  "length (snd (snd (foldl add_sentence st ss))) = length (snd (snd st)) + length ss"
  by (induction ss arbitrary: st) (simp_all add: add_sentence_length)

lemma length_buildSentenceVectors:
  "length (fst (buildSentenceVectors sentences)) = length sentences"
  using foldl_add_sentence_length [of "([], 0, [])" sentences]
  by (auto simp: buildSentenceVectors_def split: prod.splits)

text \<open>
  C5. For at most 3 sentences the summary is all sentences in their order, joined with
  single blanks, whatever their similarities. For more than 3 it is the join of exactly
  \<open>min 3 (max 1 (N div 5))\<close> sentences, taken in ascending order of index without
  repetition, and no sentence left out has a higher final score than one taken.
  (\<open>Math.floor(N * 0.2)\<close> is \<open>N div 5\<close>.)
\<close>

theorem summary_selection:
  "(length sentences \<le> 3 \<longrightarrow> select_summary sentences = join_space sentences)
   \<and> (3 < length sentences \<longrightarrow>
        (\<exists>top. select_summary sentences = join_space (map (\<lambda>i. sentences ! i) top)
           \<and> length top = min 3 (max 1 (length sentences div 5))
           \<and> sorted top \<and> distinct top
           \<and> (\<forall>i\<in>set top. i < length sentences)
           \<and> (\<forall>i\<in>set top. \<forall>j<length sentences. j \<notin> set top \<longrightarrow>
                 rank_scores (fst (buildSentenceVectors sentences)) (length sentences) 0.85 30 ! j
                 \<le> rank_scores (fst (buildSentenceVectors sentences)) (length sentences) 0.85 30 ! i)))"
proof (intro conjI impI)
  assume "length sentences \<le> 3"
  then show "select_summary sentences = join_space sentences"
    by (simp add: select_summary_def)
next
  assume big: "3 < length sentences"
  let ?n = "length sentences"
  let ?S = "rank_scores (fst (buildSentenceVectors sentences)) ?n 0.85 30"
  let ?top = "top_indices (topCount ?n) ?S"
  have len: "length ?S = ?n" by (rule length_rank_scores)
  have k: "topCount ?n \<le> length ?S"
    unfolding len by (rule topCount_le) (use big in auto)
  have sel: "select_summary sentences = join_space (map (\<lambda>i. sentences ! i) ?top)"
    using big rank_and_select_eq [of sentences] by (simp add: select_summary_def)
  note p = top_indices_props [OF k]
  have "length ?top = min 3 (max 1 (?n div 5))"
    using p(1) by (simp only: topCount_eq)
  moreover have "\<forall>i\<in>set ?top. i < ?n" using p(4) unfolding len .
  moreover have "\<forall>i\<in>set ?top. \<forall>j<?n. j \<notin> set ?top \<longrightarrow> ?S ! j \<le> ?S ! i"
    using p(5) unfolding len .
  ultimately show "\<exists>top. select_summary sentences = join_space (map (\<lambda>i. sentences ! i) top)
           \<and> length top = min 3 (max 1 (length sentences div 5))
           \<and> sorted top \<and> distinct top
           \<and> (\<forall>i\<in>set top. i < length sentences)
           \<and> (\<forall>i\<in>set top. \<forall>j<length sentences. j \<notin> set top \<longrightarrow> ?S ! j \<le> ?S ! i)"
    using sel p(2,3) by blast
qed

theorem summary_selection_witness:
  "select_summary [''One.'', ''Two.'', ''Three.''] = ''One. Two. Three.''
   \<and> (\<exists>top. select_summary [''One.'', ''Two.'', ''Three.'', ''Four.'']
              = join_space (map (\<lambda>i. [''One.'', ''Two.'', ''Three.'', ''Four.''] ! i) top)
         \<and> length top = 1 \<and> sorted top \<and> distinct top)"
proof -
  have h1: "length [''One.'', ''Two.'', ''Three.''] \<le> 3" by simp
  have h2: "3 < length [''One.'', ''Two.'', ''Three.'', ''Four.'']" by simp
  from summary_selection [of "[''One.'', ''Two.'', ''Three.'']"] h1
  have "select_summary [''One.'', ''Two.'', ''Three.''] = join_space [''One.'', ''Two.'', ''Three.'']"
    by blast
  then have a: "select_summary [''One.'', ''Two.'', ''Three.''] = ''One. Two. Three.''" by simp
  from summary_selection [of "[''One.'', ''Two.'', ''Three.'', ''Four.'']"] h2
  obtain top where t: "select_summary [''One.'', ''Two.'', ''Three.'', ''Four.'']
              = join_space (map (\<lambda>i. [''One.'', ''Two.'', ''Three.'', ''Four.''] ! i) top)"
     "length top = min 3 (max 1 (length [''One.'', ''Two.'', ''Three.'', ''Four.''] div 5))"
     "sorted top" "distinct top"
    by blast
  from t(2) have "length top = 1" by simp
  with a t(1,3,4) show ?thesis by blast
qed

text \<open>
  C9. The route keeps at most 60 sentences and ranks only when there are more than 3
  (\<open>select_summary\<close> calls \<open>rank_and_select\<close>, the only caller of \<open>textRank\<close>, in its
  \<open>else\<close> branch). Then \<open>textRank\<close> is given between 4 and 60 sentences and as many
  vectors, returns as many elements, and each element has an \<open>idx\<close> below the number of
  sentences, so that \<open>sentences[t.idx]\<close> is defined.
\<close>

theorem ranking_indices_in_range:
  assumes "sentences = take 60 (splitSentences text)" and "\<not> length sentences \<le> 3"
  shows "4 \<le> length sentences \<and> length sentences \<le> 60
     \<and> select_summary sentences = rank_and_select sentences
     \<and> length (fst (buildSentenceVectors sentences)) = length sentences
     \<and> length (textRank sentences (fst (buildSentenceVectors sentences))
          \<lparr>damping = Some 0.85, iters = Some 30\<rparr>) = length sentences
     \<and> (\<forall>t\<in>set (textRank sentences (fst (buildSentenceVectors sentences))
          \<lparr>damping = Some 0.85, iters = Some 30\<rparr>).
          \<exists>i. item_idx t = Some i \<and> i < length sentences
            \<and> at_index sentences i = Some (sentences ! i))"
proof -
  let ?V = "fst (buildSentenceVectors sentences)"
  let ?O = "\<lparr>damping = Some 0.85, iters = Some 30\<rparr>"
  let ?S = "rank_scores ?V (length sentences) (opt_damping ?O) (opt_iters ?O)"
  have n4: "4 \<le> length sentences" using assms(2) by simp
  have n60: "length sentences \<le> 60" unfolding assms(1) by simp
  have sel: "select_summary sentences = rank_and_select sentences"
    using assms(2) by (simp add: select_summary_def)
  have tr: "textRank sentences ?V ?O = map Obj (ranking ?S)"
    by (rule textRank_ranking) (use n4 in simp)
  have len: "length (textRank sentences ?V ?O) = length sentences"
    unfolding tr by (simp add: length_ranking length_rank_scores)
  have "\<exists>i. item_idx t = Some i \<and> i < length sentences \<and> at_index sentences i = Some (sentences ! i)"
    if "t \<in> set (textRank sentences ?V ?O)" for t
  proof -
    from that obtain r where r: "r \<in> set (ranking ?S)" "t = Obj r" unfolding tr by auto
    from ranking_entry [OF r(1)] have "idx r < length sentences" by (simp add: length_rank_scores)
    then show ?thesis using r(2) by (simp add: item_idx_def at_index_def)
  qed
  then show ?thesis
    using n4 n60 sel len length_buildSentenceVectors [of sentences] by blast
qed

lemma split_example:
  "take 60 (splitSentences ''One. Two. Three. Four.'') = [''One.'', ''Two.'', ''Three.'', ''Four.'']"
  by (simp add: splitSentences_def trim_def char_class_defs)

theorem ranking_indices_in_range_witness:
  "select_summary [''One.'', ''Two.'', ''Three.'', ''Four.'']
      = rank_and_select [''One.'', ''Two.'', ''Three.'', ''Four.'']
   \<and> length (textRank [''One.'', ''Two.'', ''Three.'', ''Four.'']
        (fst (buildSentenceVectors [''One.'', ''Two.'', ''Three.'', ''Four.'']))
        \<lparr>damping = Some 0.85, iters = Some 30\<rparr>) = 4"
proof -
  have h1: "[''One.'', ''Two.'', ''Three.'', ''Four.''] = take 60 (splitSentences ''One. Two. Three. Four.'')"
    by (simp only: split_example)
  have h2: "\<not> length [''One.'', ''Two.'', ''Three.'', ''Four.''] \<le> 3" by simp
  from ranking_indices_in_range [OF h1 h2] show ?thesis by simp
qed

end
